theory Spec2Isabelle
  imports Complex_Main "HOL-Library.Word" "HOL-Library.Signed_Division"
begin

section \<open>QAOA features of Intel-QS: a shallow embedding of \<^verbatim>\<open>qaoa_features.cpp\<close>\<close>

text \<open>
  Conventions of the embedding.
  \<^item> \<^verbatim>\<open>std::size_t\<close> is a 64-bit word: addition, subtraction and multiplication wrap.
    \<^verbatim>\<open>unsigned\<close> is a 32-bit word.
  \<^item> \<^verbatim>\<open>int\<close> is a 32-bit integer in two's complement. A value of type \<^verbatim>\<open>int\<close> is
    modelled by the integer it denotes, and the result of every addition, subtraction
    and multiplication on \<^verbatim>\<open>int\<close> is reduced to 32 bits by \<open>int32\<close>, as the compiled
    code does (C++ itself leaves a signed overflow undefined). The quotient and
    remainder of C++ truncate towards zero: they are \<open>sdiv\<close> and \<open>smod\<close>.
  \<^item> The number of vertices is the number of qubits of a register, which is below 64:
    the indices \<open>v * num_vertices + u\<close> into the adjacency matrix are below \<open>2^12\<close>
    and are computed on natural numbers.
  \<^item> \<^verbatim>\<open>double\<close> and \<^verbatim>\<open>float\<close> are the real numbers and \<^verbatim>\<open>ComplexDP\<close>,
    \<^verbatim>\<open>ComplexSP\<close> the complex numbers: rounding is not part of the model.
  \<^item> A failed \<^verbatim>\<open>assert\<close> ends the call: every assertion of the source is a
    constructor of \<open>failure\<close>. A read outside a vector and a shift by the width of the
    type or more, which C++ leaves undefined, are a \<open>failure\<close> too.
  \<^item> An OpenMP region is modelled by its execution with one thread, which visits the
    local indices in increasing order. The MPI processes are modelled by the list of
    their local states, in the order of their ranks.
\<close>

datatype failure =
    TooLargeDecimal          \<comment> \<open>\<^verbatim>\<open>assert( 0 )\<close> of ConvertToBinary\<close>
  | UndefinedShift           \<comment> \<open>\<^verbatim>\<open>1 << n\<close> with \<open>n\<close> not below the width of the type\<close>
  | OutOfBounds              \<comment> \<open>read or write outside a vector\<close>
  | AdjacencySize            \<comment> \<open>\<^verbatim>\<open>assert(adjacency.size() == num_vertices*num_vertices)\<close>\<close>
  | NonNullDiagonal          \<comment> \<open>\<^verbatim>\<open>assert(adjacency[v*num_vertices+v]==0)\<close>\<close>
  | OddEdgeSum               \<comment> \<open>\<^verbatim>\<open>assert(num_edges%2==0)\<close>\<close>
  | OddQuadraticForm         \<comment> \<open>first \<^verbatim>\<open>assert(cut%2==0)\<close> of the loop\<close>
  | OddDifference            \<comment> \<open>second \<^verbatim>\<open>assert(cut%2==0)\<close> of the loop\<close>
  | LocalSizeMismatch        \<comment> \<open>\<^verbatim>\<open>assert( psi.LocalSize( ) == diag.LocalSize( ) )\<close>\<close>
  | GlobalSizeMismatch       \<comment> \<open>\<^verbatim>\<open>assert( psi.GlobalSize() == diag.GlobalSize() )\<close>\<close>
  | NonPositiveMaxValue      \<comment> \<open>\<^verbatim>\<open>assert(max_value>0)\<close>\<close>
  | CutOutOfRange            \<comment> \<open>\<^verbatim>\<open>assert( cut>=0 && cut <= max_value )\<close>\<close>

type_synonym size_t = "64 word"
type_synonym unsigned = "32 word"

definition int32 :: "int \<Rightarrow> int" where
  "int32 k = signed_take_bit 31 k"

subsection \<open>namespace utility: ConvertToBinary and ConvertToDecimal\<close>

text \<open>
  The loop of ConvertToBinary, \<^verbatim>\<open>for (unsigned pos=0; pos<z.size(); ++pos)\<close>, with
  its body \<^verbatim>\<open>z[pos] = k%2; k=k/2;\<close>. An element of the vector (of type \<^verbatim>\<open>int\<close> or
  \<^verbatim>\<open>unsigned\<close>) is modelled by its value.
\<close>

function ConvertToBinary_loop :: "nat \<Rightarrow> size_t \<Rightarrow> int list \<Rightarrow> int list" where
  "ConvertToBinary_loop pos k z =
     (if pos < length z
      then ConvertToBinary_loop (Suc pos) (k div 2) (z[pos := uint (k mod 2)])
      else z)"
  by pat_completeness auto
termination
  by (relation "measure (\<lambda>(pos, k, z). length z - pos)") auto

text \<open>
  The guard compares \<open>k\<close> with \<^verbatim>\<open>(T_decimal)1 << z.size()\<close>. The shift is undefined
  when the vector has 64 elements or more. The loop counter is a 32-bit \<^verbatim>\<open>unsigned\<close>,
  which cannot wrap here: the loop is reached with fewer than 64 elements only.
\<close>

definition ConvertToBinary :: "size_t \<Rightarrow> int list \<Rightarrow> failure + int list" where
  "ConvertToBinary k z =
     (if 64 \<le> length z then Inl UndefinedShift
      else if k \<ge> push_bit (length z) 1 then Inl TooLargeDecimal
      else Inr (ConvertToBinary_loop 0 k z))"

text \<open>
  The loop of ConvertToDecimal, \<^verbatim>\<open>for (unsigned pos=z.size()-1; pos>0; --pos)\<close>, with
  its body \<^verbatim>\<open>k += (T_decimal)(z[pos]); k=k*2;\<close>. The read of \<^verbatim>\<open>z[pos]\<close> is checked
  against the size of the vector.
\<close>

fun ConvertToDecimal_loop :: "nat \<Rightarrow> int list \<Rightarrow> size_t \<Rightarrow> failure + size_t" where
  "ConvertToDecimal_loop 0 z k = Inr k"
| "ConvertToDecimal_loop (Suc p) z k =
     (if Suc p < length z
      then ConvertToDecimal_loop p z ((k + word_of_int (z ! Suc p)) * 2)
      else Inl OutOfBounds)"

text \<open>
  The first value of the counter is \<^verbatim>\<open>z.size()-1\<close>, computed in \<^verbatim>\<open>std::size_t\<close> and
  narrowed to \<^verbatim>\<open>unsigned\<close>. After the loop, \<^verbatim>\<open>k += (T_decimal)(z[0])\<close>.
\<close>

definition first_pos :: "int list \<Rightarrow> nat" where
  "first_pos z = unat (ucast (word_of_nat (length z) - 1 :: size_t) :: unsigned)"

definition ConvertToDecimal :: "int list \<Rightarrow> failure + size_t" where
  "ConvertToDecimal z =
     (case ConvertToDecimal_loop (first_pos z) z 0 of
        Inl e \<Rightarrow> Inl e
      | Inr k \<Rightarrow> (if 0 < length z then Inr (k + word_of_int (z ! 0)) else Inl OutOfBounds))"

text \<open>
  The names of the specification for the two conversions. \<open>DecodeToBits\<close> converts
  into a fresh vector \<^verbatim>\<open>std::vector<int> z(width)\<close>.
\<close>

definition DecodeToBits :: "size_t \<Rightarrow> nat \<Rightarrow> failure + int list" where
  "DecodeToBits k width = ConvertToBinary k (replicate width 0)"

definition EncodeFromBits :: "int list \<Rightarrow> failure + size_t" where
  "EncodeFromBits bits = ConvertToDecimal bits"

text \<open>The value that the specification gives to a bit-vector: \<open>sum(bits[i] * 2^i)\<close>.\<close>

definition bits_value :: "int list \<Rightarrow> int" where
  "bits_value bits = (\<Sum>i<length bits. bits ! i * 2 ^ i)"

subsection \<open>The distributed register and the processes\<close>

text \<open>
  Modelled from the spec: the class \<^verbatim>\<open>QubitRegister\<close> is not part of the source file.
  The specification describes it as an array of \<open>2^num_qubits\<close> complex entries split into
  contiguous shards, one per process, with \<^verbatim>\<open>LocalSize()\<close>, \<^verbatim>\<open>GlobalSize()\<close>,
  \<^verbatim>\<open>NumQubits()\<close> and indexing of the local shard. A register value is the view of one
  process: \<open>amplitudes\<close> is its shard.
\<close>

record qreg =
  NumQubits :: nat
  GlobalSize :: nat
  amplitudes :: "complex list"

definition LocalSize :: "qreg \<Rightarrow> nat" where
  "LocalSize r = length (amplitudes r)"

text \<open>\<^verbatim>\<open>std::norm\<close> of a complex number is the square of its magnitude.\<close>

definition std_norm :: "complex \<Rightarrow> real" where
  "std_norm c = Re c * Re c + Im c * Im c"

text \<open>
  Modelled from the spec: the process group is not part of the source file
  (\<^verbatim>\<open>qhipster::mpi::Environment\<close> and MPI). Every process runs the same function on its
  own shard, with its own rank (\<^verbatim>\<open>GetStateRank()\<close>). \<open>run_ranks f r xs\<close> runs \<open>f\<close> on
  the processes of ranks \<open>r, r+1, \<dots>\<close>; a failure in one process ends the whole run.
\<close>

fun run_ranks :: "(nat \<Rightarrow> 'a \<Rightarrow> failure + 'b) \<Rightarrow> nat \<Rightarrow> 'a list \<Rightarrow> failure + 'b list" where
  "run_ranks f r [] = Inr []"
| "run_ranks f r (x # xs) =
     (case f r x of
        Inl e \<Rightarrow> Inl e
      | Inr y \<Rightarrow> (case run_ranks f (Suc r) xs of Inl e \<Rightarrow> Inl e | Inr ys \<Rightarrow> Inr (y # ys)))"

text \<open>
  Modelled from the spec: the collective reductions \<^verbatim>\<open>MPI_Allreduce\<close> and
  \<^verbatim>\<open>MPI_Allreduce_x\<close>, with \<^verbatim>\<open>MPI_MAX\<close> and \<^verbatim>\<open>MPI_SUM\<close>, combine the values of the
  processes, here in the order of their ranks. There is at least one process.
\<close>

fun MPI_Allreduce_MAX :: "int list \<Rightarrow> int" where
  "MPI_Allreduce_MAX (v # vs) = foldl max v vs"

definition MPI_Allreduce_SUM :: "real list \<Rightarrow> real" where
  "MPI_Allreduce_SUM vs = foldl (+) 0 vs"

definition MPI_Allreduce_SUM_array :: "nat \<Rightarrow> real list list \<Rightarrow> real list" where
  "MPI_Allreduce_SUM_array count hs = map (\<lambda>n. MPI_Allreduce_SUM (map (\<lambda>h. h ! n) hs)) [0..<count]"

subsection \<open>InitializeVectorAsMaxCutCostFunction\<close>

text \<open>
  The preliminary checks on the adjacency matrix (size, null diagonal, even sum of the
  entries). The result is \<open>num_edges\<close>.
\<close>

definition adjacency_checks :: "nat \<Rightarrow> int list \<Rightarrow> failure + int" where
  "adjacency_checks num_vertices adjacency =
     (if length adjacency \<noteq> num_vertices * num_vertices then Inl AdjacencySize
      else if \<not> list_all (\<lambda>v. adjacency ! (v * num_vertices + v) = 0) [0..<num_vertices]
        then Inl NonNullDiagonal
      else
        let num_edges = foldl (\<lambda>num_edges e. int32 (num_edges + adjacency ! e)) 0
                          [0..<length adjacency]
        in if num_edges smod 2 \<noteq> 0 then Inl OddEdgeSum else Inr (num_edges sdiv 2))"

text \<open>From a vector of \<open>{0,1}\<close> to a vector of \<open>{-1,1}\<close>.\<close>

definition to_colors :: "nat \<Rightarrow> int list \<Rightarrow> int list" where
  "to_colors num_vertices xbin =
     foldl (\<lambda>xbin v. if xbin ! v = 0 then xbin[v := - 1] else xbin) xbin [0..<num_vertices]"

text \<open>The two nested loops that compute \<open>x\<^sup>T.ADJ.x\<close>.\<close>

definition quadratic_form :: "nat \<Rightarrow> int list \<Rightarrow> int list \<Rightarrow> int" where
  "quadratic_form num_vertices adjacency xbin =
     foldl (\<lambda>cut v.
        foldl (\<lambda>cut u.
           int32 (cut + int32 (int32 (adjacency ! (v * num_vertices + u) * xbin ! v) * xbin ! u)))
          cut [0..<num_vertices])
       0 [0..<num_vertices]"

text \<open>
  One iteration of the loop over the local indices. The state of the loop is the shard
  of \<open>diag\<close>, \<open>max_cut\<close> and the vector \<open>xbin\<close>, which is allocated once and used again
  by every iteration.
\<close>

definition cost_body ::
  "nat \<Rightarrow> int \<Rightarrow> int list \<Rightarrow> size_t \<Rightarrow> nat \<Rightarrow> complex list \<times> int \<times> int list
     \<Rightarrow> failure + complex list \<times> int \<times> int list" where
  "cost_body num_vertices num_edges adjacency glb_start i s =
     (case s of (d, max_cut, xbin) \<Rightarrow>
        let x = glb_start + word_of_nat i in
        case ConvertToBinary x xbin of
          Inl e \<Rightarrow> Inl e
        | Inr xbin \<Rightarrow>
            let xbin = to_colors num_vertices xbin;
                cut = quadratic_form num_vertices adjacency xbin
            in if cut smod 2 \<noteq> 0 then Inl OddQuadraticForm
               else
                 let cut = int32 (num_edges - cut sdiv 2)
                 in if cut smod 2 \<noteq> 0 then Inl OddDifference
                    else
                      let cut = cut sdiv 2
                      in Inr (d[i := Complex (of_int cut) 0],
                              if cut > max_cut then cut else max_cut,
                              xbin))"

fun cost_loop ::
  "nat \<Rightarrow> int \<Rightarrow> int list \<Rightarrow> size_t \<Rightarrow> nat list \<Rightarrow> complex list \<times> int \<times> int list
     \<Rightarrow> failure + complex list \<times> int \<times> int list" where
  "cost_loop num_vertices num_edges adjacency glb_start [] s = Inr s"
| "cost_loop num_vertices num_edges adjacency glb_start (i # is) s =
     (case cost_body num_vertices num_edges adjacency glb_start i s of
        Inl e \<Rightarrow> Inl e
      | Inr s' \<Rightarrow> cost_loop num_vertices num_edges adjacency glb_start is s')"

text \<open>The function in the process of rank \<open>myrank\<close>, up to the reduction over the processes.\<close>

definition InitializeVectorAsMaxCutCostFunction_rank ::
  "int list \<Rightarrow> nat \<Rightarrow> qreg \<Rightarrow> failure + qreg \<times> int" where
  "InitializeVectorAsMaxCutCostFunction_rank adjacency myrank diag =
     (let num_vertices = NumQubits diag in
      case adjacency_checks num_vertices adjacency of
        Inl e \<Rightarrow> Inl e
      | Inr num_edges \<Rightarrow>
          let glb_start = word_of_nat myrank * word_of_nat (LocalSize diag) in
          case cost_loop num_vertices num_edges adjacency glb_start [0..<LocalSize diag]
                 (amplitudes diag, 0, replicate num_vertices 0) of
            Inl e \<Rightarrow> Inl e
          | Inr (d, max_cut, xbin) \<Rightarrow> Inr (diag\<lparr>amplitudes := d\<rparr>, max_cut))"

text \<open>
  The function as all the processes run it: the registers of the processes in the order
  of their ranks, and the maximum reduced over the processes.
\<close>

definition InitializeVectorAsMaxCutCostFunction ::
  "qreg list \<Rightarrow> int list \<Rightarrow> failure + qreg list \<times> int" where
  "InitializeVectorAsMaxCutCostFunction diags adjacency =
     (case run_ranks (InitializeVectorAsMaxCutCostFunction_rank adjacency) 0 diags of
        Inl e \<Rightarrow> Inl e
      | Inr rs \<Rightarrow> Inr (map fst rs, MPI_Allreduce_MAX (map snd rs)))"

subsection \<open>ImplementQaoaLayerBasedOnCostFunction\<close>

definition ImplementQaoaLayerBasedOnCostFunction :: "qreg \<Rightarrow> qreg \<Rightarrow> real \<Rightarrow> failure + qreg" where
  "ImplementQaoaLayerBasedOnCostFunction psi diag gamma =
     (if LocalSize psi \<noteq> LocalSize diag then Inl LocalSizeMismatch
      else if GlobalSize psi \<noteq> GlobalSize diag then Inl GlobalSizeMismatch
      else Inr (psi\<lparr>amplitudes :=
        foldl (\<lambda>a i. a[i := a ! i *
                 Complex (cos (gamma * Re (amplitudes diag ! i)))
                         (- sin (gamma * Re (amplitudes diag ! i)))])
          (amplitudes psi) [0..<LocalSize psi]\<rparr>))"

subsection \<open>GetExpectationValueFromCostFunction\<close>

text \<open>
  The loop runs over the local indices of \<open>psi\<close>; the function has no check on the
  sizes, so the read of \<open>diag[i]\<close> is checked against the shard of \<open>diag\<close>.
\<close>

fun expectation_loop :: "qreg \<Rightarrow> qreg \<Rightarrow> nat list \<Rightarrow> real \<Rightarrow> failure + real" where
  "expectation_loop psi diag [] local_expectation = Inr local_expectation"
| "expectation_loop psi diag (i # is) local_expectation =
     (if i < LocalSize diag
      then expectation_loop psi diag is
             (local_expectation + Re (amplitudes diag ! i) * std_norm (amplitudes psi ! i))
      else Inl OutOfBounds)"

definition GetExpectationValueFromCostFunction_rank :: "nat \<Rightarrow> qreg \<times> qreg \<Rightarrow> failure + real" where
  "GetExpectationValueFromCostFunction_rank myrank pd =
     (case pd of (psi, diag) \<Rightarrow> expectation_loop psi diag [0..<LocalSize psi] 0)"

definition GetExpectationValueFromCostFunction :: "(qreg \<times> qreg) list \<Rightarrow> failure + real" where
  "GetExpectationValueFromCostFunction pds =
     (case run_ranks GetExpectationValueFromCostFunction_rank 0 pds of
        Inl e \<Rightarrow> Inl e
      | Inr local_expectations \<Rightarrow> Inr (MPI_Allreduce_SUM local_expectations))"

subsection \<open>GetHistogramFromCostFunction\<close>

text \<open>
  The conversion \<^verbatim>\<open>(int)\<close> of a floating-point value discards the fractional part. A
  value beyond the range of \<^verbatim>\<open>int\<close> is kept as it is: it is above every \<open>max_value\<close>
  or negative, and the assertion on \<open>cut\<close> that follows the conversion rejects it.
\<close>

definition int_cast :: "real \<Rightarrow> int" where
  "int_cast r = (if 0 \<le> r then \<lfloor>r\<rfloor> else \<lceil>r\<rceil>)"

fun histogram_loop :: "qreg \<Rightarrow> qreg \<Rightarrow> int \<Rightarrow> nat list \<Rightarrow> real list \<Rightarrow> failure + real list" where
  "histogram_loop psi diag max_value [] private_hist = Inr private_hist"
| "histogram_loop psi diag max_value (i # is) private_hist =
     (let cut = int_cast (Re (amplitudes diag ! i)) in
      if \<not> (cut \<ge> 0 \<and> cut \<le> max_value) then Inl CutOutOfRange
      else
        let index_bin = nat cut
        in histogram_loop psi diag max_value is
             (private_hist[index_bin := private_hist ! index_bin + std_norm (amplitudes psi ! i)]))"

text \<open>
  The function in one process, up to the reduction over the processes: the histogram of
  the thread is added to the histogram of the process, which starts from zero. The two
  arrays have \<^verbatim>\<open>max_value+1\<close> elements, a number computed on \<^verbatim>\<open>int\<close>, and the loops
  \<^verbatim>\<open>for (int n=0; n<=max_value; ++n)\<close> write their elements \<open>0, \<dots>, max_value\<close>: when
  \<^verbatim>\<open>max_value+1\<close> overflows, these writes are outside the arrays.
\<close>

definition GetHistogramFromCostFunction_rank ::
  "int \<Rightarrow> nat \<Rightarrow> qreg \<times> qreg \<Rightarrow> failure + real list" where
  "GetHistogramFromCostFunction_rank max_value myrank pd =
     (case pd of (psi, diag) \<Rightarrow>
        if LocalSize psi \<noteq> LocalSize diag then Inl LocalSizeMismatch
        else if GlobalSize psi \<noteq> GlobalSize diag then Inl GlobalSizeMismatch
        else if \<not> max_value > 0 then Inl NonPositiveMaxValue
        else if \<not> max_value < int32 (max_value + 1) then Inl OutOfBounds
        else
          let local_hist = replicate (nat (int32 (max_value + 1))) 0;
              private_hist = replicate (nat (int32 (max_value + 1))) 0
          in case histogram_loop psi diag max_value [0..<LocalSize psi] private_hist of
               Inl e \<Rightarrow> Inl e
             | Inr private_hist \<Rightarrow>
                 Inr (foldl (\<lambda>local_hist n. local_hist[n := local_hist ! n + private_hist ! n])
                        local_hist [0..<Suc (nat max_value)]))"

text \<open>
  The global histogram \<^verbatim>\<open>std::vector<Basetype> global_hist(max_value+1,0)\<close> receives the
  sum of the \<^verbatim>\<open>max_value+1\<close> elements of the local histograms.
\<close>

definition GetHistogramFromCostFunction ::
  "(qreg \<times> qreg) list \<Rightarrow> int \<Rightarrow> failure + real list" where
  "GetHistogramFromCostFunction pds max_value =
     (case run_ranks (GetHistogramFromCostFunction_rank max_value) 0 pds of
        Inl e \<Rightarrow> Inl e
      | Inr local_hists \<Rightarrow>
          Inr (MPI_Allreduce_SUM_array (nat (int32 (max_value + 1))) local_hists))"

subsection \<open>The quantities of the specification\<close>

text \<open>
  The adjacency matrix \<open>A\<close> of a graph with \<open>n\<close> vertices is stored by rows:
  \<open>A[v][u]\<close> is the element \<open>v * n + u\<close> of the vector. The invariants of the
  specification: the size, the symmetry, the zero diagonal and the even sum of the
  entries. The specification also describes the weights as non-negative.
\<close>

definition adjacency_invariants :: "nat \<Rightarrow> int list \<Rightarrow> bool" where
  "adjacency_invariants n A \<longleftrightarrow>
     length A = n * n \<and>
     (\<forall>v\<in>{..<n}. \<forall>u\<in>{..<n}. A ! (v * n + u) = A ! (u * n + v)) \<and>
     (\<forall>v\<in>{..<n}. A ! (v * n + v) = 0) \<and>
     even (sum_list A)"

definition nonnegative_weights :: "int list \<Rightarrow> bool" where
  "nonnegative_weights A \<longleftrightarrow> (\<forall>a\<in>set A. 0 \<le> a)"

text \<open>
  The weights fit the type \<^verbatim>\<open>int\<close> of the sums that the source takes of them: the sum of
  their absolute values is at most \<open>2^31 - 1\<close>, so that no sum of weights overflows.
\<close>

definition weights_fit_int :: "int list \<Rightarrow> bool" where
  "weights_fit_int A \<longleftrightarrow> (\<Sum>a\<leftarrow>A. \<bar>a\<bar>) < 2 ^ 31"

text \<open>The checks that the source makes: the invariants without the symmetry.\<close>

definition checked_invariants :: "nat \<Rightarrow> int list \<Rightarrow> bool" where
  "checked_invariants n A \<longleftrightarrow>
     length A = n * n \<and> (\<forall>v\<in>{..<n}. A ! (v * n + v) = 0) \<and> even (sum_list A)"

text \<open>
  The coloring of the global index \<open>x\<close>: bit \<open>v\<close> of \<open>x\<close> (the least significant bit is
  bit 0), with 0 mapped to \<open>-1\<close>. A coloring in general is a vector of \<open>n\<close> values in \<open>{-1,+1}\<close>.
\<close>

definition spec_coloring :: "nat \<Rightarrow> nat \<Rightarrow> int list" where
  "spec_coloring n x = map (\<lambda>v. if bit x v then 1 else - 1) [0..<n]"

definition is_coloring :: "nat \<Rightarrow> int list \<Rightarrow> bool" where
  "is_coloring n c \<longleftrightarrow> length c = n \<and> (\<forall>b\<in>set c. b = 1 \<or> b = - 1)"

text \<open>
  The quadratic form \<open>q = \<Sigma>\<^sub>v\<^sub>,\<^sub>u A[v][u] * color[v] * color[u]\<close>, the number of
  edges \<open>sum(A)/2\<close> and the cut count \<open>(num_edges - q/2) / 2\<close>.
\<close>

definition spec_q :: "nat \<Rightarrow> int list \<Rightarrow> int list \<Rightarrow> int" where
  "spec_q n A c = (\<Sum>v<n. \<Sum>u<n. A ! (v * n + u) * c ! v * c ! u)"

definition spec_num_edges :: "int list \<Rightarrow> int" where
  "spec_num_edges A = sum_list A div 2"

definition spec_cut :: "nat \<Rightarrow> int list \<Rightarrow> nat \<Rightarrow> int" where
  "spec_cut n A x = (spec_num_edges A - spec_q n A (spec_coloring n x) div 2) div 2"

text \<open>
  The total weight of the ordered pairs of vertices with two different colors: every
  cut edge of a symmetric matrix is counted twice.
\<close>

definition crossing_weight :: "nat \<Rightarrow> int list \<Rightarrow> int list \<Rightarrow> int" where
  "crossing_weight n A c = (\<Sum>v<n. \<Sum>u<n. if c ! v = c ! u then 0 else A ! (v * n + u))"

text \<open>
  The registers of the processes for \<open>n\<close> qubits: at least one process, every process
  with the same number of local amplitudes, \<open>2^n\<close> amplitudes in all, and a global size
  that a \<^verbatim>\<open>std::size_t\<close> can hold.
\<close>

definition register_shards :: "nat \<Rightarrow> qreg list \<Rightarrow> bool" where
  "register_shards n regs \<longleftrightarrow>
     n < 64 \<and> regs \<noteq> [] \<and>
     (\<forall>r\<in>set regs. NumQubits r = n \<and> GlobalSize r = 2 ^ n \<and>
        LocalSize r * length regs = 2 ^ n)"

text \<open>
  The preconditions on the pairs of registers (amplitudes and costs) of the processes: the
  same local size in every process; the same local and global sizes in every process;
  every cost of the global cost array in \<open>[0, max_value]\<close>.
\<close>

definition equal_local_sizes :: "(qreg \<times> qreg) list \<Rightarrow> bool" where
  "equal_local_sizes pds \<longleftrightarrow> (\<forall>(psi, diag)\<in>set pds. LocalSize psi = LocalSize diag)"

definition equal_sizes :: "(qreg \<times> qreg) list \<Rightarrow> bool" where
  "equal_sizes pds \<longleftrightarrow>
     (\<forall>(psi, diag)\<in>set pds. LocalSize psi = LocalSize diag \<and> GlobalSize psi = GlobalSize diag)"

definition costs_in_range :: "int \<Rightarrow> (qreg \<times> qreg) list \<Rightarrow> bool" where
  "costs_in_range max_value pds \<longleftrightarrow>
     (\<forall>(psi, diag)\<in>set pds. \<forall>c\<in>set (amplitudes diag). 0 \<le> Re c \<and> Re c \<le> of_int max_value)"

text \<open>The array that the shards of the processes make, in the order of the ranks.\<close>

definition global_array :: "qreg list \<Rightarrow> complex list" where
  "global_array regs = concat (map amplitudes regs)"

section \<open>Properties of the conversions\<close>

declare ConvertToBinary_loop.simps [simp del]

lemma length_ConvertToBinary_loop:
  "length (ConvertToBinary_loop pos k z) = length z"
proof (induction pos k z rule: ConvertToBinary_loop.induct)
  case (1 pos k z)
  then show ?case by (subst ConvertToBinary_loop.simps) simp
qed

lemma uint_mod_2: "uint ((k::size_t) mod 2) = of_bool (bit k 0)"
  by (simp add: bit_0 mod_2_eq_odd)

lemma nth_ConvertToBinary_loop:
  "j < length z \<Longrightarrow>
   ConvertToBinary_loop pos k z ! j = (if j < pos then z ! j else of_bool (bit k (j - pos)))"
proof (induction pos k z rule: ConvertToBinary_loop.induct)
  case (1 pos k z)
  show ?case
  proof (cases "pos < length z")
    case True
    have "ConvertToBinary_loop pos k z ! j =
          ConvertToBinary_loop (Suc pos) (k div 2) (z[pos := uint (k mod 2)]) ! j"
      using True by (subst ConvertToBinary_loop.simps) simp
    also have "\<dots> = (if j < Suc pos then z[pos := uint (k mod 2)] ! j
                      else of_bool (bit (k div 2) (j - Suc pos)))"
      using 1 True by simp
    also have "\<dots> = (if j < pos then z ! j else of_bool (bit k (j - pos)))"
    proof (cases "j = pos")
      case True
      then show ?thesis using \<open>pos < length z\<close> by (simp add: uint_mod_2)
    next
      case False
      then show ?thesis
        by (auto simp: bit_Suc [symmetric] Suc_diff_Suc)
    qed
    finally show ?thesis .
  next
    case False
    then show ?thesis
      using 1(2) by (subst ConvertToBinary_loop.simps) simp
  qed
qed

lemma less_2p_unat: "w < 64 \<Longrightarrow> (k::size_t) < 2 ^ w \<longleftrightarrow> unat k < 2 ^ w"
proof -
  assume "w < 64"
  then have "k < 2 ^ w \<longleftrightarrow> uint k < 2 ^ w"
    by (simp add: word_2p_lem word_size)
  also have "\<dots> \<longleftrightarrow> nat (uint k) < 2 ^ w"
    by (simp only: nat_less_numeral_power_cancel_iff)
  finally show ?thesis by simp
qed

lemma ConvertToBinary_bits:
  assumes "length z < 64" "unat k < 2 ^ length z"
  shows "ConvertToBinary k z = Inr (map (\<lambda>j. of_bool (bit k j)) [0..<length z])"
proof -
  have "ConvertToBinary_loop 0 k z = map (\<lambda>j. of_bool (bit k j)) [0..<length z]"
    by (rule nth_equalityI) (simp_all add: nth_ConvertToBinary_loop length_ConvertToBinary_loop)
  moreover have "k < 2 ^ length z"
    using assms by (simp add: less_2p_unat)
  ultimately show ?thesis
    using assms(1) by (simp add: ConvertToBinary_def not_le)
qed

lemma ConvertToDecimal_loop_eq:
  "p < length z \<Longrightarrow>
   ConvertToDecimal_loop p z k = Inr (k * 2 ^ p + (\<Sum>j = 1..p. word_of_int (z ! j) * 2 ^ j))"
proof (induction p arbitrary: k)
  case 0
  then show ?case by simp
next
  case (Suc p)
  then show ?case by (simp add: algebra_simps)
qed

lemma ConvertToDecimal_loop_OutOfBounds:
  "0 < p \<Longrightarrow> length z \<le> p \<Longrightarrow> ConvertToDecimal_loop p z k = Inl OutOfBounds"
  by (cases p) simp_all

lemma first_pos_eq:
  assumes "0 < length z" "length z \<le> 2 ^ 32"
  shows "first_pos z = length z - 1"
proof -
  obtain m where m: "length z = Suc m" using assms(1) by (cases "length z") auto
  have "m < 2 ^ 32" using assms(2) m by simp
  have "(word_of_nat (length z) - 1 :: size_t) = word_of_nat m"
    by (simp add: m)
  moreover have "unat (ucast (word_of_nat m :: size_t) :: unsigned) = m"
    using \<open>m < 2 ^ 32\<close> by (simp add: unsigned_ucast_eq unat_of_nat take_bit_eq_mod)
  ultimately show ?thesis by (simp add: first_pos_def m)
qed

lemma first_pos_Nil: "first_pos [] = 4294967295"
  by (simp add: first_pos_def unsigned_ucast_eq unsigned_minus_1_eq_mask take_bit_eq_mod
      mask_eq_exp_minus_1)

lemma first_pos_less:
  assumes "z \<noteq> []"
  shows "first_pos z < length z"
proof (cases "length z \<le> 2 ^ 32")
  case True
  then show ?thesis using assms first_pos_eq [of z] by simp
next
  case False
  have "first_pos z < 2 ^ 32"
    using unsigned_less [of "ucast (word_of_nat (length z) - 1 :: size_t) :: unsigned", where 'a = nat]
    by (simp add: first_pos_def)
  then show ?thesis using False by simp
qed

lemma ConvertToDecimal_Nil: "ConvertToDecimal [] = Inl OutOfBounds"
  by (simp add: ConvertToDecimal_def first_pos_Nil ConvertToDecimal_loop_OutOfBounds)

lemma ConvertToDecimal_total:
  assumes "z \<noteq> []"
  shows "\<exists>k. ConvertToDecimal z = Inr k"
  using assms ConvertToDecimal_loop_eq [OF first_pos_less [OF assms], of 0]
  by (simp add: ConvertToDecimal_def)

lemma ConvertToDecimal_sum:
  assumes "z \<noteq> []" "length z \<le> 2 ^ 32"
  shows "ConvertToDecimal z = Inr (word_of_int (bits_value z))"
proof -
  obtain m where m: "length z = Suc m" using assms(1) by (cases z) auto
  have fp: "first_pos z = m" using assms m by (simp add: first_pos_eq)
  have lt: "m < length z" using m by simp
  have "{..<length z} = insert 0 {1..m}" using m by auto
  then have "(word_of_int (bits_value z) :: size_t)
      = word_of_int (z ! 0) + (\<Sum>j = 1..m. word_of_int (z ! j) * 2 ^ j)"
    by (simp add: bits_value_def)
  then show ?thesis
    unfolding ConvertToDecimal_def fp ConvertToDecimal_loop_eq [OF lt]
    using m by (simp add: add.commute)
qed

lemma bits_value_of_bool:
  "bits_value (map of_bool bs) = horner_sum of_bool 2 bs"
  by (simp add: bits_value_def horner_sum_eq_sum atLeast0LessThan)

lemma bits_as_bools:
  assumes "set z \<subseteq> {0, 1}"
  shows "z = map of_bool (map (\<lambda>b. b = 1) z)"
  using assms by (induction z) auto

lemma bits_value_horner:
  assumes "set z \<subseteq> {0, 1}"
  shows "bits_value z = horner_sum of_bool 2 (map (\<lambda>b. b = 1) z)"
  using bits_as_bools [OF assms] bits_value_of_bool [of "map (\<lambda>b. b = 1) z"] by simp

lemma bits_value_bounds:
  assumes "set z \<subseteq> {0, 1}"
  shows "0 \<le> bits_value z \<and> bits_value z < 2 ^ length z"
proof -
  let ?bs = "map (\<lambda>b. b = 1) z"
  have "take_bit (length ?bs) (horner_sum of_bool 2 ?bs :: int) = horner_sum of_bool 2 ?bs"
    by (rule bit_eqI) (auto simp: bit_take_bit_iff bit_horner_sum_bit_iff)
  then have "take_bit (length z) (bits_value z) = bits_value z"
    by (simp add: bits_value_horner [OF assms])
  then show ?thesis by (simp add: take_bit_int_eq_self_iff)
qed

lemma bit_word_of_int_bits_value:
  assumes "set z \<subseteq> {0, 1}" "length z \<le> 64" "j < length z"
  shows "bit (word_of_int (bits_value z) :: size_t) j \<longleftrightarrow> z ! j = 1"
  using assms(2,3)
  by (simp add: bits_value_horner [OF assms(1)] bit_word_of_int_iff bit_horner_sum_bit_iff)

lemma uint_word_of_int_bits_value:
  assumes "set z \<subseteq> {0, 1}" "length z \<le> 64"
  shows "uint (word_of_int (bits_value z) :: size_t) = bits_value z"
proof -
  have "bits_value z < 2 ^ length z" "0 \<le> bits_value z"
    using bits_value_bounds [OF assms(1)] by simp_all
  moreover have "(2::int) ^ length z \<le> 2 ^ 64"
    using assms(2) by (intro power_increasing) simp_all
  ultimately show ?thesis
    by (simp add: uint_word_of_int take_bit_int_eq_self)
qed

lemma decode_after_encode:
  assumes "bits \<noteq> []" "length bits < 64" "set bits \<subseteq> {0, 1}"
  shows "EncodeFromBits bits = Inr (word_of_int (bits_value bits)) \<and>
         DecodeToBits (word_of_int (bits_value bits)) (length bits) = Inr bits"
proof -
  let ?k = "word_of_int (bits_value bits) :: size_t"
  have enc: "EncodeFromBits bits = Inr ?k"
    using assms by (simp add: EncodeFromBits_def ConvertToDecimal_sum)
  have "uint ?k < 2 ^ length bits"
    using uint_word_of_int_bits_value [of bits] bits_value_bounds [of bits] assms by simp
  then have "unat ?k < 2 ^ length bits"
    by (simp only: nat_less_numeral_power_cancel_iff flip: nat_uint_eq)
  then have "DecodeToBits ?k (length bits) = Inr (map (\<lambda>j. of_bool (bit ?k j)) [0..<length bits])"
    using assms ConvertToBinary_bits [of "replicate (length bits) 0" ?k]
    by (simp add: DecodeToBits_def)
  also have "map (\<lambda>j. of_bool (bit ?k j)) [0..<length bits] = bits"
  proof (rule nth_equalityI)
    fix j assume "j < length (map (\<lambda>j. of_bool (bit ?k j) :: int) [0..<length bits])"
    then have j: "j < length bits" by simp
    then have "bits ! j \<in> {0, 1}" using assms(3) nth_mem by blast
    then show "map (\<lambda>j. of_bool (bit ?k j)) [0..<length bits] ! j = bits ! j"
      using j assms bit_word_of_int_bits_value [of bits j] by auto
  qed simp
  finally show ?thesis using enc by simp
qed

lemma encode_after_decode:
  assumes "0 < w" "w < 64" "unat k < 2 ^ w"
  shows "DecodeToBits k w = Inr (map (\<lambda>j. of_bool (bit k j)) [0..<w]) \<and>
         EncodeFromBits (map (\<lambda>j. of_bool (bit k j)) [0..<w]) = Inr k"
proof -
  let ?bits = "map (\<lambda>j. of_bool (bit k j)) [0..<w] :: int list"
  have b: "DecodeToBits k w = Inr ?bits"
    using assms ConvertToBinary_bits [of "replicate w 0" k] by (simp add: DecodeToBits_def)
  have "k < 2 ^ w" using assms by (simp add: less_2p_unat)
  have "(word_of_int (bits_value ?bits) :: size_t) = (\<Sum>j = 0..<w. push_bit j (of_bool (bit k j)))"
    by (simp add: bits_value_def push_bit_eq_mult atLeast0LessThan)
  also have "\<dots> = take_bit w k" by (simp add: take_bit_sum)
  also have "\<dots> = k" using \<open>k < 2 ^ w\<close> less_mask_eq [of k w] by (simp add: take_bit_eq_mask)
  finally have "EncodeFromBits ?bits = Inr k"
    using assms ConvertToDecimal_sum [of ?bits] by (simp add: EncodeFromBits_def)
  then show ?thesis using b by simp
qed

text \<open>
  Claim C2. The claim states two round trips: \<open>EncodeFromBits(DecodeToBits(k, w)) = k\<close> for
  every width \<open>w \<ge> 1\<close> and every \<open>k < 2^w\<close>, and \<open>DecodeToBits(EncodeFromBits(bits),
  length(bits)) = bits\<close> for every vector of values in \<open>{0,1}\<close>. Both fail as stated. The
  empty vector holds only values in \<open>{0,1}\<close>, and \<open>EncodeFromBits\<close> reads outside of it;
  with the width 64, \<open>DecodeToBits\<close> shifts a 64-bit value by 64 positions.
\<close>

theorem bit_codec_round_trip_counterexample:
  "EncodeFromBits [] = Inl OutOfBounds \<and> DecodeToBits 5 64 = Inl UndefinedShift"
  by (simp add: EncodeFromBits_def ConvertToDecimal_Nil DecodeToBits_def ConvertToBinary_def)

text \<open>
  Claim C2, amended. For every width \<open>w\<close> from 1 to 63 and every \<open>k < 2^w\<close>, decoding
  \<open>k\<close> into \<open>w\<close> bits and encoding the bits gives \<open>k\<close>; for every vector of 1 to 63
  values in \<open>{0,1}\<close>, encoding the vector and decoding the result into as many bits gives
  the vector.
\<close>

theorem bit_codec_round_trip:
  "(0 < w \<and> w < 64 \<and> unat k < 2 ^ w \<longrightarrow>
      (\<exists>bits. DecodeToBits k w = Inr bits \<and> EncodeFromBits bits = Inr k)) \<and>
   (bits \<noteq> [] \<and> length bits < 64 \<and> set bits \<subseteq> {0, 1} \<longrightarrow>
      (\<exists>k'. EncodeFromBits bits = Inr k' \<and> DecodeToBits k' (length bits) = Inr bits))"
  using encode_after_decode [of w k] decode_after_encode [of bits] by blast

theorem bit_codec_round_trip_witness:
  "(0::nat) < 3 \<and> (3::nat) < 64 \<and> unat (5::size_t) < 2 ^ 3 \<and>
   (\<exists>bits. DecodeToBits 5 3 = Inr bits \<and> EncodeFromBits bits = Inr 5) \<and>
   [1, 0, 1] \<noteq> ([]::int list) \<and> length [1, 0, 1::int] < 64 \<and> set [1, 0, 1::int] \<subseteq> {0, 1} \<and>
   (\<exists>k'. EncodeFromBits [1, 0, 1] = Inr k' \<and> DecodeToBits k' (length [1, 0, 1::int]) = Inr [1, 0, 1])"
  using bit_codec_round_trip [of 3 5 "[1, 0, 1]"] by simp

text \<open>
  Claim C10. The claim states that ConvertToDecimal returns the sum of \<open>bits[i] * 2^i\<close>
  for every vector of length at least 1, and reads outside the vector when it is empty.
  The first part fails as stated: the result is a 64-bit \<^verbatim>\<open>std::size_t\<close>, and for the
  vector of 65 elements whose last element is 1 the sum is \<open>2^64\<close> while the function
  returns 0.
\<close>

theorem ConvertToDecimal_sum_counterexample:
  "ConvertToDecimal (replicate 64 0 @ [1]) = Inr 0 \<and>
   bits_value (replicate 64 0 @ [1]) = 18446744073709551616"
  by code_simp

text \<open>
  Claim C10, amended. ConvertToDecimal returns a value exactly for the vectors that are not
  empty. On the empty vector the first value of the loop counter is \<open>2^32 - 1\<close> and the
  function reads outside the vector. On a vector of 1 to \<open>2^32\<close> elements it returns the
  sum of \<open>bits[i] * 2^i\<close> reduced modulo \<open>2^64\<close>, which is the sum itself when the vector
  has at most 64 elements, all of them in \<open>{0,1}\<close>.
\<close>

theorem ConvertToDecimal_defined_iff_nonempty:
  "((\<exists>k. ConvertToDecimal z = Inr k) \<longleftrightarrow> z \<noteq> []) \<and>
   first_pos [] = 4294967295 \<and> ConvertToDecimal [] = Inl OutOfBounds \<and>
   (z \<noteq> [] \<and> length z \<le> 2 ^ 32 \<longrightarrow> ConvertToDecimal z = Inr (word_of_int (bits_value z))) \<and>
   (z \<noteq> [] \<and> length z \<le> 64 \<and> set z \<subseteq> {0, 1} \<longrightarrow>
      (\<exists>k. ConvertToDecimal z = Inr k \<and> uint k = bits_value z))"
proof -
  have "(\<exists>k. ConvertToDecimal z = Inr k) \<longleftrightarrow> z \<noteq> []"
    using ConvertToDecimal_total [of z] ConvertToDecimal_Nil by auto
  moreover have "ConvertToDecimal z = Inr (word_of_int (bits_value z))"
    if "z \<noteq> []" "length z \<le> 2 ^ 32"
    using that by (rule ConvertToDecimal_sum)
  moreover have "\<exists>k. ConvertToDecimal z = Inr k \<and> uint k = bits_value z"
    if "z \<noteq> []" "length z \<le> 64" "set z \<subseteq> {0, 1}"
  proof -
    have "length z \<le> 2 ^ 32" using that(2) by simp
    then show ?thesis
      using that ConvertToDecimal_sum [of z] uint_word_of_int_bits_value [of z] by simp
  qed
  ultimately show ?thesis
    using first_pos_Nil ConvertToDecimal_Nil by blast
qed

theorem ConvertToDecimal_defined_iff_nonempty_witness:
  "[1, 0, 1] \<noteq> ([]::int list) \<and> length [1, 0, 1::int] \<le> 64 \<and> set [1, 0, 1::int] \<subseteq> {0, 1} \<and>
   ConvertToDecimal [1, 0, 1] = Inr 5 \<and> bits_value [1, 0, 1] = 5"
proof -
  have v: "bits_value [1, 0, 1] = 5" by code_simp
  show ?thesis
    using ConvertToDecimal_defined_iff_nonempty [of "[1, 0, 1]"] by (simp add: v)
qed

section \<open>Properties of the cost function\<close>

lemma foldl_add_upt:
  "foldl (\<lambda>a i. a + f i) a0 [0..<n] = a0 + (\<Sum>i<n. f i :: int)"
  by (induction n) simp_all

lemma smod_2_eq_0_iff: "(a::int) smod 2 = 0 \<longleftrightarrow> even a"
  by (auto simp: signed_modulo_int_def sgn_if)

lemma even_sdiv_2: "even (a::int) \<Longrightarrow> a sdiv 2 = a div 2"
  by (auto simp: signed_divide_int_def sgn_if elim!: evenE)

lemma sum_rows:
  "(\<Sum>i<(m::nat) * n. g i :: int) = (\<Sum>v<m. \<Sum>u<n. g (v * n + u))"
proof (induction m)
  case 0
  then show ?case by simp
next
  case (Suc m)
  have "{..<Suc m * n} = {..<m * n} \<union> {m * n..<m * n + n}" by auto
  moreover have "{..<m * n} \<inter> {m * n..<m * n + n} = {}" by auto
  ultimately have "(\<Sum>i<Suc m * n. g i) = (\<Sum>i<m * n. g i) + (\<Sum>i = m * n..<m * n + n. g i)"
    by (simp add: sum.union_disjoint)
  also have "(\<Sum>i = m * n..<m * n + n. g i) = (\<Sum>u<n. g (m * n + u))"
    using sum.shift_bounds_nat_ivl [of g 0 "m * n" n]
    by (simp add: atLeast0LessThan add.commute)
  finally show ?case using Suc by simp
qed

lemma sum_list_rows:
  assumes "length A = n * n"
  shows "sum_list A = (\<Sum>v<n. \<Sum>u<n. A ! (v * n + u) :: int)"
  using sum_rows [where m = n and n = n and g = "\<lambda>i. A ! i"] assms
  by (simp add: sum_list_sum_nth atLeast0LessThan)

lemma int32_eq_self: "- (2 ^ 31) \<le> k \<Longrightarrow> k < 2 ^ 31 \<Longrightarrow> int32 k = k"
  unfolding int32_def by (rule signed_take_bit_int_eq_self)

lemma int32_abs_eq_self: "\<bar>k\<bar> < 2 ^ 31 \<Longrightarrow> int32 k = k"
  by (rule int32_eq_self) simp_all

lemma int32_add_left: "int32 (int32 a + b) = int32 (a + b)"
  using signed_take_bit_add [of 31 "int32 a" b] signed_take_bit_add [of 31 a b]
  by (simp add: int32_def)

lemma int32_add_right: "int32 (a + int32 b) = int32 (a + b)"
  using int32_add_left [of b a] by (simp add: add.commute)

lemma int32_mult_left: "int32 (int32 a * b) = int32 (a * b)"
  using signed_take_bit_mult [of 31 "int32 a" b] signed_take_bit_mult [of 31 a b]
  by (simp add: int32_def)

lemma even_int32: "even (int32 k) \<longleftrightarrow> even k"
  by (simp add: int32_def even_signed_take_bit_iff)

lemma int32_cong_dvd: "2 ^ 32 dvd int32 k - k"
proof -
  have "signed_take_bit 31 (int32 k) = signed_take_bit 31 k" by (simp add: int32_def)
  then have "take_bit 32 (int32 k) = take_bit 32 k"
    by (simp add: signed_take_bit_eq_iff_take_bit_eq)
  then show ?thesis by (simp add: take_bit_eq_mod mod_eq_dvd_iff)
qed

lemma foldl_int32_add_upt:
  "foldl (\<lambda>a i. int32 (a + f i)) (int32 a0) [0..<n] = int32 (a0 + (\<Sum>i<n. f i))"
proof (induction n)
  case 0
  then show ?case by simp
next
  case (Suc n)
  then show ?case by (simp add: int32_add_left add.assoc)
qed

lemma sum_list_eq_sum_nth: "(\<Sum>i<length A. A ! i) = (sum_list A :: int)"
  by (simp add: sum_list_sum_nth atLeast0LessThan)

lemma adjacency_checks_wrap:
  assumes "checked_invariants n A"
  shows "adjacency_checks n A = Inr (int32 (sum_list A) div 2)"
proof -
  have "foldl (\<lambda>num_edges e. int32 (num_edges + A ! e)) (int32 0) [0..<length A] =
        int32 (sum_list A)"
    by (simp only: foldl_int32_add_upt sum_list_eq_sum_nth add_0)
  then have "foldl (\<lambda>num_edges e. int32 (num_edges + A ! e)) 0 [0..<length A] =
        int32 (sum_list A)"
    by (simp add: int32_def)
  moreover have "list_all (\<lambda>v. A ! (v * n + v) = 0) [0..<n]"
    using assms by (simp add: checked_invariants_def list_all_iff)
  ultimately show ?thesis
    using assms
    by (simp add: adjacency_checks_def checked_invariants_def smod_2_eq_0_iff even_sdiv_2
        even_int32)
qed

lemma quadratic_form_wrap: "quadratic_form n A c = int32 (spec_q n A c)"
proof -
  have inner: "foldl (\<lambda>cut u. int32 (cut + int32 (int32 (A ! (v * n + u) * c ! v) * c ! u)))
                 (int32 a0) [0..<n] =
               int32 (a0 + (\<Sum>u<n. A ! (v * n + u) * c ! v * c ! u))" for v a0
    using foldl_int32_add_upt [of "\<lambda>u. A ! (v * n + u) * c ! v * c ! u" a0 n]
    by (simp add: int32_add_right int32_mult_left)
  have outer: "foldl (\<lambda>cut v.
        foldl (\<lambda>cut u. int32 (cut + int32 (int32 (A ! (v * n + u) * c ! v) * c ! u)))
          cut [0..<n]) (int32 a0) [0..<m] =
      int32 (a0 + (\<Sum>v<m. \<Sum>u<n. A ! (v * n + u) * c ! v * c ! u))" for m a0
  proof (induction m)
    case 0
    then show ?case by simp
  next
    case (Suc m)
    then show ?case by (simp add: inner add.assoc)
  qed
  have "int32 0 = 0" by (simp add: int32_def)
  with outer [of 0 n] show ?thesis
    by (simp add: quadratic_form_def spec_q_def)
qed

lemma to_colors_aux:
  "m \<le> length xs \<Longrightarrow>
   foldl (\<lambda>xbin v. if xbin ! v = 0 then xbin[v := - 1] else xbin) xs [0..<m] =
   map (\<lambda>b. if b = 0 then - 1 else b) (take m xs) @ drop m xs"
proof (induction m)
  case 0
  then show ?case by simp
next
  case (Suc m)
  let ?ys = "map (\<lambda>b. if b = 0 then - 1 else b) (take m xs) @ drop m xs"
  have len: "length ?ys = length xs" by simp
  have nth: "?ys ! m = xs ! m" using Suc.prems by (simp add: nth_append)
  have "(if ?ys ! m = 0 then ?ys[m := - 1] else ?ys) =
        map (\<lambda>b. if b = 0 then - 1 else b) (take (Suc m) xs) @ drop (Suc m) xs"
    using Suc.prems
    by (intro nth_equalityI) (auto simp: nth_append nth_list_update less_Suc_eq)
  then show ?case using Suc by simp
qed

lemma to_colors_eq:
  "length xbin = n \<Longrightarrow> to_colors n xbin = map (\<lambda>b. if b = 0 then - 1 else b) xbin"
  by (simp add: to_colors_def to_colors_aux)

lemma colors_of_index:
  assumes "n < 64" "length xbin = n" "unat x < 2 ^ n"
  shows "ConvertToBinary x xbin = Inr (map (\<lambda>j. of_bool (bit x j)) [0..<n]) \<and>
         to_colors n (map (\<lambda>j. of_bool (bit x j)) [0..<n]) = spec_coloring n (unat x)"
proof -
  have "bit (unat x) j = bit x j" for j
    by (simp add: bit_unsigned_iff)
  then have "to_colors n (map (\<lambda>j. of_bool (bit x j)) [0..<n]) = spec_coloring n (unat x)"
    by (simp add: to_colors_eq spec_coloring_def)
  then show ?thesis using assms ConvertToBinary_bits [of xbin x] by simp
qed

lemma is_coloring_spec_coloring: "is_coloring n (spec_coloring n x)"
  by (auto simp: is_coloring_def spec_coloring_def)

lemma coloring_product:
  assumes "is_coloring n c" "v < n" "u < n"
  shows "a * c ! v * c ! u = (if c ! v = c ! u then a else - a)"
proof -
  have "c ! v = 1 \<or> c ! v = - 1" "c ! u = 1 \<or> c ! u = - 1"
    using assms by (auto simp: is_coloring_def)
  then show ?thesis by auto
qed

lemma sum_minus_q:
  assumes "length A = n * n" "is_coloring n c"
  shows "sum_list A - spec_q n A c = 2 * crossing_weight n A c"
proof -
  have "sum_list A - spec_q n A c =
        (\<Sum>v<n. \<Sum>u<n. A ! (v * n + u) - A ! (v * n + u) * c ! v * c ! u)"
    by (simp add: sum_list_rows [OF assms(1)] spec_q_def sum_subtractf)
  also have "\<dots> = (\<Sum>v<n. \<Sum>u<n. 2 * (if c ! v = c ! u then 0 else A ! (v * n + u)))"
    by (intro sum.cong refl) (simp add: coloring_product [OF assms(2)])
  also have "\<dots> = 2 * crossing_weight n A c"
    by (simp add: crossing_weight_def sum_distrib_left)
  finally show ?thesis .
qed

lemma even_symmetric_sum:
  fixes n :: nat
  assumes "\<And>v u. v < n \<Longrightarrow> u < n \<Longrightarrow> f v u = f u v" "\<And>v. v < n \<Longrightarrow> even (f v v)"
  shows "even (\<Sum>v<n. \<Sum>u<n. f v u :: int)"
  using assms
proof (induction n)
  case 0
  then show ?case by simp
next
  case (Suc n)
  have "(\<Sum>v<Suc n. \<Sum>u<Suc n. f v u) =
        (\<Sum>v<n. \<Sum>u<n. f v u) + (\<Sum>v<n. f v n) + (\<Sum>u<n. f n u) + f n n"
    by (simp add: sum.distrib)
  also have "(\<Sum>v<n. f v n) = (\<Sum>u<n. f n u)"
    by (intro sum.cong refl) (simp add: Suc.prems(1))
  finally have "(\<Sum>v<Suc n. \<Sum>u<Suc n. f v u) =
        (\<Sum>v<n. \<Sum>u<n. f v u) + 2 * (\<Sum>u<n. f n u) + f n n"
    by simp
  moreover have "even (\<Sum>v<n. \<Sum>u<n. f v u)"
    using Suc.prems by (intro Suc.IH) simp_all
  moreover have "even (f n n)" using Suc.prems(2) by simp
  ultimately show ?case by simp
qed

lemma even_crossing_weight:
  assumes "adjacency_invariants n A"
  shows "even (crossing_weight n A c)"
  unfolding crossing_weight_def
proof (rule even_symmetric_sum)
  fix v u assume "v < n" "u < n"
  then have "A ! (v * n + u) = A ! (u * n + v)"
    using assms by (simp add: adjacency_invariants_def)
  then show "(if c ! v = c ! u then 0 else A ! (v * n + u)) =
             (if c ! u = c ! v then 0 else A ! (u * n + v))"
    by auto
next
  fix v assume "v < n"
  show "even (if c ! v = c ! v then 0 else A ! (v * n + v))" by simp
qed

lemma even_q:
  assumes "length A = n * n" "even (sum_list A)" "is_coloring n c"
  shows "even (spec_q n A c)"
proof -
  have "spec_q n A c = sum_list A - 2 * crossing_weight n A c"
    using sum_minus_q [OF assms(1,3)] by simp
  then show ?thesis using assms(2) by simp
qed

lemma difference_eq_crossing_weight:
  assumes "length A = n * n" "even (sum_list A)" "is_coloring n c"
  shows "spec_num_edges A - spec_q n A c div 2 = crossing_weight n A c"
proof -
  obtain s where s: "sum_list A = 2 * s" using assms(2) by (auto elim: evenE)
  obtain q where q: "spec_q n A c = 2 * q" using even_q [OF assms] by (auto elim: evenE)
  show ?thesis
    using sum_minus_q [OF assms(1,3)] by (simp add: spec_num_edges_def s q)
qed

lemma checked_of_invariants: "adjacency_invariants n A \<Longrightarrow> checked_invariants n A"
  by (simp add: adjacency_invariants_def checked_invariants_def)

lemma crossing_weight_bounds:
  assumes "length A = n * n" "nonnegative_weights A"
  shows "0 \<le> crossing_weight n A c \<and> crossing_weight n A c \<le> sum_list A"
proof -
  have nn: "0 \<le> A ! (v * n + u)" if "v < n" "u < n" for v u
  proof -
    have "v * n + u < n * n"
    proof -
      have "v * n + u < v * n + n" using that by simp
      also have "\<dots> = Suc v * n" by simp
      also have "\<dots> \<le> n * n" using that by (intro mult_le_mono1) simp
      finally show ?thesis .
    qed
    then show ?thesis using assms by (simp add: nonnegative_weights_def)
  qed
  have "0 \<le> crossing_weight n A c"
    unfolding crossing_weight_def by (intro sum_nonneg) (simp add: nn)
  moreover have "crossing_weight n A c \<le> (\<Sum>v<n. \<Sum>u<n. A ! (v * n + u))"
    unfolding crossing_weight_def by (intro sum_mono) (simp add: nn)
  ultimately show ?thesis by (simp add: sum_list_rows [OF assms(1)])
qed


lemma abs_rows:
  fixes A :: "int list"
  assumes "length A = n * n"
  shows "(\<Sum>v<n. \<Sum>u<n. \<bar>A ! (v * n + u)\<bar>) = (\<Sum>a\<leftarrow>A. \<bar>a\<bar>)"
proof -
  have "(\<Sum>a\<leftarrow>A. \<bar>a\<bar>) = (\<Sum>i<length A. \<bar>A ! i\<bar>)"
    by (simp add: sum_list_sum_nth atLeast0LessThan)
  then show ?thesis
    using sum_rows [where m = n and n = n and g = "\<lambda>i. \<bar>A ! i\<bar>"] assms by simp
qed

lemma abs_sum_list_le: "\<bar>sum_list A\<bar> \<le> (\<Sum>a\<leftarrow>A. \<bar>a\<bar>)" for A :: "int list"
  by (rule sum_list_abs)

lemma abs_spec_q_le:
  assumes "length A = n * n" "is_coloring n c"
  shows "\<bar>spec_q n A c\<bar> \<le> (\<Sum>a\<leftarrow>A. \<bar>a\<bar>)"
proof -
  have "\<bar>spec_q n A c\<bar> \<le> (\<Sum>v<n. \<bar>\<Sum>u<n. A ! (v * n + u) * c ! v * c ! u\<bar>)"
    unfolding spec_q_def by (rule sum_abs)
  also have "\<dots> \<le> (\<Sum>v<n. \<Sum>u<n. \<bar>A ! (v * n + u) * c ! v * c ! u\<bar>)"
    by (intro sum_mono sum_abs)
  also have "\<dots> = (\<Sum>v<n. \<Sum>u<n. \<bar>A ! (v * n + u)\<bar>)"
    by (intro sum.cong refl) (simp add: coloring_product [OF assms(2)])
  finally show ?thesis by (simp add: abs_rows [OF assms(1)])
qed

lemma abs_crossing_weight_le:
  assumes "length A = n * n"
  shows "\<bar>crossing_weight n A c\<bar> \<le> (\<Sum>a\<leftarrow>A. \<bar>a\<bar>)"
proof -
  have "\<bar>crossing_weight n A c\<bar> \<le>
        (\<Sum>v<n. \<bar>\<Sum>u<n. if c ! v = c ! u then 0 else A ! (v * n + u)\<bar>)"
    unfolding crossing_weight_def by (rule sum_abs)
  also have "\<dots> \<le> (\<Sum>v<n. \<Sum>u<n. \<bar>if c ! v = c ! u then 0 else A ! (v * n + u)\<bar>)"
    by (intro sum_mono sum_abs)
  also have "\<dots> \<le> (\<Sum>v<n. \<Sum>u<n. \<bar>A ! (v * n + u)\<bar>)"
    by (intro sum_mono) simp
  finally show ?thesis by (simp add: abs_rows [OF assms])
qed

lemma fitting_values:
  assumes "length A = n * n" "even (sum_list A)" "is_coloring n c" "weights_fit_int A"
  shows "int32 (sum_list A) = sum_list A" "int32 (spec_q n A c) = spec_q n A c"
    "int32 (spec_num_edges A - spec_q n A c div 2) = crossing_weight n A c"
proof -
  have fit: "(\<Sum>a\<leftarrow>A. \<bar>a\<bar>) < 2 ^ 31" using assms(4) by (simp add: weights_fit_int_def)
  show "int32 (sum_list A) = sum_list A"
    using abs_sum_list_le [of A] fit by (intro int32_abs_eq_self) simp
  show "int32 (spec_q n A c) = spec_q n A c"
    using abs_spec_q_le [OF assms(1,3)] fit by (intro int32_abs_eq_self) simp
  have "int32 (crossing_weight n A c) = crossing_weight n A c"
    using abs_crossing_weight_le [OF assms(1), of c] fit by (intro int32_abs_eq_self) simp
  then show "int32 (spec_num_edges A - spec_q n A c div 2) = crossing_weight n A c"
    by (simp add: difference_eq_crossing_weight [OF assms(1,2,3)])
qed

lemma int32_half:
  assumes "even S"
  shows "\<exists>j. int32 S div 2 = S div 2 + 2 * j"
proof -
  from int32_cong_dvd [of S] obtain j where j: "int32 S - S = 2 ^ 32 * j" by (auto simp: dvd_def)
  obtain s where s: "S = 2 * s" using assms by (auto elim: evenE)
  have "int32 S = 2 * (s + 2 ^ 31 * j)" using j s by simp
  then have "int32 S div 2 = S div 2 + 2 * (2 ^ 30 * j)" using s by simp
  then show ?thesis by blast
qed

lemma wrapped_difference_parity:
  assumes "even S" "even q"
  shows "even (int32 (int32 S div 2 - int32 q div 2)) \<longleftrightarrow> even (S div 2 - q div 2)"
proof -
  from int32_half [OF assms(1)] obtain j where j: "int32 S div 2 = S div 2 + 2 * j" by blast
  from int32_half [OF assms(2)] obtain k where k: "int32 q div 2 = q div 2 + 2 * k" by blast
  have "int32 S div 2 - int32 q div 2 = (S div 2 - q div 2) + 2 * (j - k)"
    by (simp add: j k)
  then show ?thesis by (simp add: even_int32)
qed

lemma spec_cut_eq:
  assumes "checked_invariants n A"
  shows "spec_cut n A x = crossing_weight n A (spec_coloring n x) div 2"
  using assms difference_eq_crossing_weight [of A n "spec_coloring n x"]
  by (simp add: spec_cut_def checked_invariants_def is_coloring_spec_coloring)

lemma cost_body_wrap:
  assumes "checked_invariants n A" "n < 64" "length xbin = n"
    and "unat (glb_start + word_of_nat i) = X" "X < 2 ^ n"
  defines "w \<equiv> int32 (int32 (sum_list A) div 2 - int32 (spec_q n A (spec_coloring n X)) div 2)"
  shows "cost_body n (int32 (sum_list A) div 2) A glb_start i (d, max_cut, xbin) =
     (if even w
      then Inr (d[i := Complex (of_int (w div 2)) 0], max max_cut (w div 2), spec_coloring n X)
      else Inl OddDifference)"
proof -
  let ?x = "glb_start + word_of_nat i"
  let ?c = "spec_coloring n X"
  have len: "length A = n * n" and ev: "even (sum_list A)"
    using assms(1) by (simp_all add: checked_invariants_def)
  have col: "is_coloring n ?c" by (rule is_coloring_spec_coloring)
  have bin: "ConvertToBinary ?x xbin = Inr (map (\<lambda>j. of_bool (bit ?x j)) [0..<n])"
    and colors: "to_colors n (map (\<lambda>j. of_bool (bit ?x j)) [0..<n]) = ?c"
    using colors_of_index [of n xbin ?x] assms(2,3,4,5) by simp_all
  have q: "even (int32 (spec_q n A ?c))"
    using even_q [OF len ev col] by (simp add: even_int32)
  show ?thesis
  proof (cases "even w")
    case True
    then show ?thesis
      using q unfolding w_def
      by (simp add: cost_body_def bin colors quadratic_form_wrap smod_2_eq_0_iff even_sdiv_2
          max_def Let_def)
  next
    case False
    then show ?thesis
      using q unfolding w_def
      by (simp add: cost_body_def bin colors quadratic_form_wrap smod_2_eq_0_iff even_sdiv_2
          Let_def)
  qed
qed

lemma cost_body_eq:
  assumes "checked_invariants n A" "weights_fit_int A" "n < 64" "length xbin = n"
    and "unat (glb_start + word_of_nat i) = X" "X < 2 ^ n"
  shows "cost_body n (spec_num_edges A) A glb_start i (d, max_cut, xbin) =
     (if even (crossing_weight n A (spec_coloring n X))
      then Inr (d[i := Complex (of_int (spec_cut n A X)) 0], max max_cut (spec_cut n A X),
                spec_coloring n X)
      else Inl OddDifference)"
proof -
  have len: "length A = n * n" and ev: "even (sum_list A)"
    using assms(1) by (simp_all add: checked_invariants_def)
  note fit = fitting_values [OF len ev is_coloring_spec_coloring [of n X] assms(2)]
  have "int32 (int32 (sum_list A) div 2 - int32 (spec_q n A (spec_coloring n X)) div 2) =
        crossing_weight n A (spec_coloring n X)"
    using fit(3) by (simp add: fit(1,2) spec_num_edges_def)
  then show ?thesis
    using cost_body_wrap [OF assms(1,3,4,5,6), of d max_cut]
    by (simp add: fit(1) spec_num_edges_def spec_cut_eq [OF assms(1)])
qed

lemma Max_insert_max:
  "finite S \<Longrightarrow> Max (insert (max a b) S) = Max (insert a (insert b S))" for a :: int
  by (cases "S = {}") (simp_all add: max.assoc)

lemma cost_loop_ok:
  assumes "checked_invariants n A" "weights_fit_int A" "n < 64" "length xbin = n"
    and "\<forall>i\<in>set is. unat (glb_start + word_of_nat i) = G + i \<and> G + i < 2 ^ n"
    and "\<forall>i\<in>set is. even (crossing_weight n A (spec_coloring n (G + i)))"
  shows "\<exists>d' xbin'. cost_loop n (spec_num_edges A) A glb_start is (d, max_cut, xbin) =
            Inr (d', Max (insert max_cut ((\<lambda>i. spec_cut n A (G + i)) ` set is)), xbin') \<and>
          length d' = length d \<and>
          (\<forall>j<length d. d' ! j =
             (if j \<in> set is then Complex (of_int (spec_cut n A (G + j))) 0 else d ! j))"
  using assms(4,5,6)
proof (induction "is" arbitrary: d max_cut xbin)
  case Nil
  then show ?case by simp
next
  case (Cons i "is")
  let ?X = "G + i"
  let ?d = "d[i := Complex (of_int (spec_cut n A ?X)) 0]"
  let ?m = "max max_cut (spec_cut n A ?X)"
  have "unat (glb_start + word_of_nat i) = ?X" "?X < 2 ^ n"
    using Cons.prems(2) by simp_all
  from cost_body_eq [OF assms(1,2,3) Cons.prems(1) this]
  have body: "cost_body n (spec_num_edges A) A glb_start i (d, max_cut, xbin) =
      Inr (?d, ?m, spec_coloring n ?X)"
    using Cons.prems(3) by simp
  have "\<exists>d' xbin'. cost_loop n (spec_num_edges A) A glb_start is (?d, ?m, spec_coloring n ?X) =
            Inr (d', Max (insert ?m ((\<lambda>i. spec_cut n A (G + i)) ` set is)), xbin') \<and>
          length d' = length ?d \<and>
          (\<forall>j<length ?d. d' ! j =
             (if j \<in> set is then Complex (of_int (spec_cut n A (G + j))) 0 else ?d ! j))"
    using Cons.prems by (intro Cons.IH) (simp_all add: spec_coloring_def)
  then obtain d' xbin' where
    run: "cost_loop n (spec_num_edges A) A glb_start is (?d, ?m, spec_coloring n ?X) =
            Inr (d', Max (insert ?m ((\<lambda>i. spec_cut n A (G + i)) ` set is)), xbin')"
    and len: "length d' = length d"
    and nth: "\<forall>j<length d. d' ! j =
             (if j \<in> set is then Complex (of_int (spec_cut n A (G + j))) 0 else ?d ! j)"
    by auto
  have mx: "Max (insert ?m ((\<lambda>i. spec_cut n A (G + i)) ` set is)) =
            Max (insert max_cut ((\<lambda>i. spec_cut n A (G + i)) ` set (i # is)))"
    by (simp add: Max_insert_max)
  have nth': "\<forall>j<length d. d' ! j =
          (if j \<in> set (i # is) then Complex (of_int (spec_cut n A (G + j))) 0 else d ! j)"
    using nth by (auto simp: nth_list_update)
  have "cost_loop n (spec_num_edges A) A glb_start (i # is) (d, max_cut, xbin) =
        Inr (d', Max (insert max_cut ((\<lambda>i. spec_cut n A (G + i)) ` set (i # is))), xbin')"
    by (simp only: cost_loop.simps body sum.case run mx)
  then show ?case using len nth' by blast
qed

lemma cost_loop_odd:
  assumes "checked_invariants n A" "weights_fit_int A" "n < 64" "length xbin = n"
    and "\<forall>i\<in>set is. unat (glb_start + word_of_nat i) = G + i \<and> G + i < 2 ^ n"
    and "\<exists>i\<in>set is. odd (crossing_weight n A (spec_coloring n (G + i)))"
  shows "cost_loop n (spec_num_edges A) A glb_start is (d, max_cut, xbin) = Inl OddDifference"
  using assms(4,5,6)
proof (induction "is" arbitrary: d max_cut xbin)
  case Nil
  then show ?case by simp
next
  case (Cons i "is")
  let ?X = "G + i"
  have "unat (glb_start + word_of_nat i) = ?X" "?X < 2 ^ n"
    using Cons.prems(2) by simp_all
  note body = cost_body_eq [OF assms(1,2,3) Cons.prems(1) this, of d max_cut]
  show ?case
  proof (cases "even (crossing_weight n A (spec_coloring n ?X))")
    case False
    then show ?thesis by (simp add: body)
  next
    case True
    then have "\<exists>i\<in>set is. odd (crossing_weight n A (spec_coloring n (G + i)))"
      using Cons.prems(3) by auto
    then have "cost_loop n (spec_num_edges A) A glb_start is
        (d[i := Complex (of_int (spec_cut n A ?X)) 0], max max_cut (spec_cut n A ?X),
         spec_coloring n ?X) = Inl OddDifference"
      using Cons.prems(2) by (intro Cons.IH) (simp_all add: spec_coloring_def)
    then show ?thesis using True by (simp add: body)
  qed
qed

lemma unat_global_index:
  assumes "r * L + i < 2 ^ n" "n < 64"
  shows "unat (word_of_nat r * word_of_nat L + word_of_nat i :: size_t) = r * L + i"
proof -
  have "(2::nat) ^ n < 2 ^ 64" using assms(2) by (intro power_strict_increasing) simp_all
  then have "r * L + i < 2 ^ 64" using assms(1) by simp
  moreover have "(word_of_nat r * word_of_nat L + word_of_nat i :: size_t) = word_of_nat (r * L + i)"
    by simp
  ultimately show ?thesis by (simp only: unat_of_nat) simp
qed

lemma rank_indices:
  assumes "n < 64" "r * L + L \<le> 2 ^ n"
  shows "\<forall>i\<in>set [0..<L]. unat (word_of_nat r * word_of_nat L + word_of_nat i :: size_t) = r * L + i \<and>
           r * L + i < 2 ^ n"
proof
  fix i assume "i \<in> set [0..<L]"
  then have "r * L + i < 2 ^ n" using assms(2) by simp
  then show "unat (word_of_nat r * word_of_nat L + word_of_nat i :: size_t) = r * L + i \<and>
           r * L + i < 2 ^ n"
    using unat_global_index [OF _ assms(1)] by simp
qed

lemma adjacency_checks_ok:
  assumes "checked_invariants n A" "weights_fit_int A"
  shows "adjacency_checks n A = Inr (spec_num_edges A)"
proof -
  have len: "length A = n * n" and ev: "even (sum_list A)"
    using assms(1) by (simp_all add: checked_invariants_def)
  from fitting_values(1) [OF len ev is_coloring_spec_coloring [of n 0] assms(2)]
  show ?thesis by (simp add: adjacency_checks_wrap [OF assms(1)] spec_num_edges_def)
qed

lemma rank_ok:
  assumes "checked_invariants n A" "weights_fit_int A" "n < 64" "NumQubits diag = n"
    "LocalSize diag = L"
    and "r * L + L \<le> 2 ^ n"
    and "\<forall>i<L. even (crossing_weight n A (spec_coloring n (r * L + i)))"
  shows "\<exists>diag'. InitializeVectorAsMaxCutCostFunction_rank A r diag =
            Inr (diag', Max (insert 0 ((\<lambda>i. spec_cut n A (r * L + i)) ` {..<L}))) \<and>
          NumQubits diag' = n \<and> GlobalSize diag' = GlobalSize diag \<and> LocalSize diag' = L \<and>
          (\<forall>j<L. amplitudes diag' ! j = Complex (of_int (spec_cut n A (r * L + j))) 0)"
proof -
  have "\<forall>i\<in>set [0..<L]. even (crossing_weight n A (spec_coloring n (r * L + i)))"
    using assms(7) by simp
  from cost_loop_ok [OF assms(1,2,3) _ rank_indices [OF assms(3,6)] this,
      of "replicate n 0" "amplitudes diag" 0]
  obtain d' xbin' where
    run: "cost_loop n (spec_num_edges A) A (word_of_nat r * word_of_nat L) [0..<L]
            (amplitudes diag, 0, replicate n 0) =
            Inr (d', Max (insert 0 ((\<lambda>i. spec_cut n A (r * L + i)) ` set [0..<L])), xbin')"
    and len: "length d' = length (amplitudes diag)"
    and nth: "\<forall>j<length (amplitudes diag). d' ! j =
             (if j \<in> set [0..<L] then Complex (of_int (spec_cut n A (r * L + j))) 0
              else amplitudes diag ! j)"
    by auto
  have set: "{0..<L} = {..<L}" by auto
  have "InitializeVectorAsMaxCutCostFunction_rank A r diag =
        Inr (diag\<lparr>amplitudes := d'\<rparr>, Max (insert 0 ((\<lambda>i. spec_cut n A (r * L + i)) ` {..<L})))"
    using run
    by (simp add: InitializeVectorAsMaxCutCostFunction_rank_def assms(4,5)
        adjacency_checks_ok [OF assms(1,2)] set)
  moreover have "\<forall>j<L. d' ! j = Complex (of_int (spec_cut n A (r * L + j))) 0"
    using nth assms(5) by (simp add: LocalSize_def)
  ultimately show ?thesis
    using len assms(4,5) by (simp add: LocalSize_def)
qed

lemma rank_odd:
  assumes "checked_invariants n A" "weights_fit_int A" "n < 64" "NumQubits diag = n"
    "LocalSize diag = L"
    and "r * L + L \<le> 2 ^ n"
    and "\<exists>i<L. odd (crossing_weight n A (spec_coloring n (r * L + i)))"
  shows "InitializeVectorAsMaxCutCostFunction_rank A r diag = Inl OddDifference"
proof -
  have "\<exists>i\<in>set [0..<L]. odd (crossing_weight n A (spec_coloring n (r * L + i)))"
    using assms(7) by auto
  from cost_loop_odd [OF assms(1,2,3) _ rank_indices [OF assms(3,6)] this,
      of "replicate n 0" "amplitudes diag" 0]
  show ?thesis
    by (simp add: InitializeVectorAsMaxCutCostFunction_rank_def assms(4,5)
        adjacency_checks_ok [OF assms(1,2)])
qed

lemma run_ranks_Inr:
  assumes "\<forall>k<length xs. \<exists>y. f (r + k) (xs ! k) = Inr y \<and> P (r + k) (xs ! k) y"
  shows "\<exists>ys. run_ranks f r xs = Inr ys \<and> length ys = length xs \<and>
           (\<forall>k<length xs. P (r + k) (xs ! k) (ys ! k))"
  using assms
proof (induction xs arbitrary: r)
  case Nil
  then show ?case by simp
next
  case (Cons x xs)
  from Cons.prems obtain y where y: "f r x = Inr y" "P r x y" by fastforce
  have "\<forall>k<length xs. \<exists>y. f (Suc r + k) (xs ! k) = Inr y \<and> P (Suc r + k) (xs ! k) y"
  proof (intro allI impI)
    fix k assume "k < length xs"
    then show "\<exists>y. f (Suc r + k) (xs ! k) = Inr y \<and> P (Suc r + k) (xs ! k) y"
      using Cons.prems [rule_format, of "Suc k"] by simp
  qed
  from Cons.IH [OF this] obtain ys where
    ys: "run_ranks f (Suc r) xs = Inr ys" "length ys = length xs"
      "\<forall>k<length xs. P (Suc r + k) (xs ! k) (ys ! k)"
    by blast
  have "\<forall>k<length (x # xs). P (r + k) ((x # xs) ! k) ((y # ys) ! k)"
  proof (intro allI impI)
    fix k assume "k < length (x # xs)"
    then show "P (r + k) ((x # xs) ! k) ((y # ys) ! k)"
      using y(2) ys(3) by (cases k) simp_all
  qed
  then show ?case using y(1) ys(1,2) by simp
qed

lemma run_ranks_Inl:
  assumes "\<forall>k<length xs. \<forall>e'. f (r + k) (xs ! k) = Inl e' \<longrightarrow> e' = e"
    and "\<exists>k<length xs. f (r + k) (xs ! k) = Inl e"
  shows "run_ranks f r xs = Inl e"
  using assms
proof (induction xs arbitrary: r)
  case Nil
  then show ?case by simp
next
  case (Cons x xs)
  show ?case
  proof (cases "f r x")
    case (Inl e')
    then have "e' = e" using Cons.prems(1) [rule_format, of 0 e'] by simp
    then show ?thesis using Inl by simp
  next
    case (Inr y)
    have 1: "\<forall>k<length xs. \<forall>e'. f (Suc r + k) (xs ! k) = Inl e' \<longrightarrow> e' = e"
    proof (intro allI impI)
      fix k e' assume "k < length xs" "f (Suc r + k) (xs ! k) = Inl e'"
      then show "e' = e" using Cons.prems(1) [rule_format, of "Suc k" e'] by simp
    qed
    from Cons.prems(2) obtain k where k: "k < length (x # xs)" "f (r + k) ((x # xs) ! k) = Inl e"
      by blast
    then obtain k' where "k = Suc k'" using Inr by (cases k) simp_all
    then have 2: "\<exists>k<length xs. f (Suc r + k) (xs ! k) = Inl e"
      using k by auto
    show ?thesis using Cons.IH [OF 1 2] Inr by simp
  qed
qed

lemma MPI_Allreduce_MAX_eq: "vs \<noteq> [] \<Longrightarrow> MPI_Allreduce_MAX vs = Max (set vs)"
proof (cases vs)
  case Nil
  assume "vs \<noteq> []"
  with Nil show ?thesis by simp
next
  case (Cons v vs')
  have "(\<lambda>x s. max s x) = (max :: int \<Rightarrow> int \<Rightarrow> int)"
    by (intro ext) (simp add: max.commute)
  then have "foldl max v vs' = fold max vs' v"
    by (simp add: foldl_conv_fold)
  then show ?thesis using Cons by (simp only: MPI_Allreduce_MAX.simps Max.set_eq_fold)
qed

lemma crossing_weight_0: "crossing_weight n A (spec_coloring n 0) = 0"
  by (simp add: crossing_weight_def spec_coloring_def)

lemma spec_cut_0: "checked_invariants n A \<Longrightarrow> spec_cut n A 0 = 0"
  by (simp add: spec_cut_eq crossing_weight_0)

lemma shards_facts:
  assumes "register_shards n regs"
  defines "L \<equiv> 2 ^ n div length regs"
  shows "n < 64" "0 < length regs" "0 < L" "L * length regs = 2 ^ n"
    "\<And>k. k < length regs \<Longrightarrow> NumQubits (regs ! k) = n \<and> GlobalSize (regs ! k) = 2 ^ n \<and>
       LocalSize (regs ! k) = L \<and> k * L + L \<le> 2 ^ n"
proof -
  show n: "n < 64" and P: "0 < length regs"
    using assms(1) by (simp_all add: register_shards_def)
  have each: "NumQubits r = n \<and> GlobalSize r = 2 ^ n \<and> LocalSize r * length regs = 2 ^ n"
    if "r \<in> set regs" for r
    using assms(1) that by (simp add: register_shards_def)
  have loc: "LocalSize r = L" if "r \<in> set regs" for r
  proof -
    have "L = LocalSize r * length regs div length regs"
      using each [OF that] by (simp add: L_def)
    then show ?thesis using P by simp
  qed
  have "hd regs \<in> set regs" using P by simp
  from each [OF this] loc [OF this] show LP: "L * length regs = 2 ^ n" by simp
  then show "0 < L" by (cases "L = 0") simp_all
  fix k assume k: "k < length regs"
  then have mem: "regs ! k \<in> set regs" by simp
  have "k * L + L = Suc k * L" by simp
  also have "\<dots> \<le> length regs * L" using k by (intro mult_le_mono1) simp
  finally have "k * L + L \<le> 2 ^ n" using LP by (simp add: mult.commute)
  then show "NumQubits (regs ! k) = n \<and> GlobalSize (regs ! k) = 2 ^ n \<and>
       LocalSize (regs ! k) = L \<and> k * L + L \<le> 2 ^ n"
    using each [OF mem] loc [OF mem] by simp
qed

lemma global_index_split:
  fixes L P x :: nat
  assumes "0 < L" "L * P = 2 ^ n" "x < 2 ^ n"
  shows "x div L < P" "x mod L < L" "x div L * L + x mod L = x"
proof -
  have "x < P * L" using assms(2,3) by (simp add: mult.commute)
  then show "x div L < P" using assms(1) by (simp add: less_mult_imp_div_less)
  show "x mod L < L" using assms(1) by simp
  show "x div L * L + x mod L = x" by simp
qed

lemma collective_ok:
  assumes "register_shards n diags" "checked_invariants n A" "weights_fit_int A"
    and "\<forall>x<2 ^ n. even (crossing_weight n A (spec_coloring n x))"
  defines "L \<equiv> 2 ^ n div length diags"
  shows "\<exists>diags'. InitializeVectorAsMaxCutCostFunction diags A =
            Inr (diags', Max (spec_cut n A ` {..<2 ^ n})) \<and>
          length diags' = length diags \<and>
          (\<forall>k<length diags. NumQubits (diags' ! k) = n \<and> GlobalSize (diags' ! k) = 2 ^ n \<and>
             LocalSize (diags' ! k) = L) \<and>
          (\<forall>x<2 ^ n. amplitudes (diags' ! (x div L)) ! (x mod L) =
             Complex (of_int (spec_cut n A x)) 0)"
proof -
  note sh = shards_facts [OF assms(1), folded L_def]
  define cut where "cut = spec_cut n A"
  define Q where "Q = (\<lambda>k (d::qreg) (y::qreg \<times> int).
      snd y = Max (insert 0 ((\<lambda>i. cut (k * L + i)) ` {..<L})) \<and>
      NumQubits (fst y) = n \<and> GlobalSize (fst y) = GlobalSize d \<and> LocalSize (fst y) = L \<and>
      (\<forall>j<L. amplitudes (fst y) ! j = Complex (of_int (cut (k * L + j))) 0))"
  have "\<forall>k<length diags. \<exists>y.
      InitializeVectorAsMaxCutCostFunction_rank A (0 + k) (diags ! k) = Inr y \<and> Q (0 + k) (diags ! k) y"
  proof (intro allI impI)
    fix k assume k: "k < length diags"
    have ev: "\<forall>i<L. even (crossing_weight n A (spec_coloring n (k * L + i)))"
    proof (intro allI impI)
      fix i assume "i < L"
      then have "k * L + i < 2 ^ n" using sh(5) [OF k] by simp
      then show "even (crossing_weight n A (spec_coloring n (k * L + i)))"
        using assms(4) by simp
    qed
    from rank_ok [OF assms(2,3) sh(1) _ _ _ ev, of "diags ! k"] sh(5) [OF k]
    obtain diag' where
      "InitializeVectorAsMaxCutCostFunction_rank A k (diags ! k) =
         Inr (diag', Max (insert 0 ((\<lambda>i. spec_cut n A (k * L + i)) ` {..<L})))"
      "NumQubits diag' = n" "GlobalSize diag' = GlobalSize (diags ! k)" "LocalSize diag' = L"
      "\<forall>j<L. amplitudes diag' ! j = Complex (of_int (spec_cut n A (k * L + j))) 0"
      by blast
    then show "\<exists>y. InitializeVectorAsMaxCutCostFunction_rank A (0 + k) (diags ! k) = Inr y \<and>
                 Q (0 + k) (diags ! k) y"
      by (simp add: Q_def cut_def)
  qed
  from run_ranks_Inr [OF this] obtain rs where
    rs: "run_ranks (InitializeVectorAsMaxCutCostFunction_rank A) 0 diags = Inr rs"
    and len: "length rs = length diags"
    and Qs: "\<forall>k<length diags. Q (0 + k) (diags ! k) (rs ! k)"
    by blast
  have Qk: "snd (rs ! k) = Max (insert 0 ((\<lambda>i. cut (k * L + i)) ` {..<L}))"
      "NumQubits (fst (rs ! k)) = n" "GlobalSize (fst (rs ! k)) = 2 ^ n"
      "LocalSize (fst (rs ! k)) = L"
      "\<And>j. j < L \<Longrightarrow> amplitudes (fst (rs ! k)) ! j = Complex (of_int (cut (k * L + j))) 0"
    if "k < length diags" for k
    using Qs [rule_format, OF that] sh(5) [OF that] by (simp_all add: Q_def)
  let ?M = "Max (cut ` {..<2 ^ n})"
  have "(0::nat) \<in> {..<2 ^ n}" by simp
  then have fin: "finite (cut ` {..<(2::nat) ^ n})" "cut ` {..<(2::nat) ^ n} \<noteq> {}" by blast+
  have cut_le: "cut x \<le> ?M" if "x < 2 ^ n" for x
    using that by (intro Max_ge) simp_all
  have zero_le: "0 \<le> ?M"
    using cut_le [of 0] spec_cut_0 [OF assms(2)] by (simp add: cut_def)
  have mk_le: "snd (rs ! k) \<le> ?M" if "k < length diags" for k
  proof -
    have "cut (k * L + i) \<le> ?M" if "i < L" for i
      using that sh(5) [OF \<open>k < length diags\<close>] by (intro cut_le) simp
    then show ?thesis
      using zero_le by (simp add: Qk(1) [OF that])
  qed
  have "?M \<in> cut ` {..<2 ^ n}" using fin by (rule Max_in)
  then obtain x where x: "x < 2 ^ n" "cut x = ?M" by auto
  note xs = global_index_split [OF sh(3,4) x(1)]
  have "?M \<le> snd (rs ! (x div L))"
  proof -
    have "cut (x div L * L + x mod L) \<in> insert 0 ((\<lambda>i. cut (x div L * L + i)) ` {..<L})"
      using xs(2) by blast
    then have "cut x \<le> Max (insert 0 ((\<lambda>i. cut (x div L * L + i)) ` {..<L}))"
      unfolding xs(3) by (intro Max_ge) simp_all
    then show ?thesis by (simp add: Qk(1) [OF xs(1)] x(2))
  qed
  then have "snd (rs ! (x div L)) = ?M" using mk_le [OF xs(1)] by simp
  then have "?M \<in> set (map snd rs)"
    using xs(1) len by (metis length_map nth_map nth_mem)
  moreover have "y \<le> ?M" if "y \<in> set (map snd rs)" for y
  proof -
    from that obtain k where "k < length rs" "y = snd (rs ! k)"
      by (auto simp: in_set_conv_nth)
    then show ?thesis using mk_le [of k] len by simp
  qed
  ultimately have "Max (set (map snd rs)) = ?M"
    by (intro Max_eqI) simp_all
  moreover have "rs \<noteq> []" using len sh(2) by auto
  ultimately have mx: "MPI_Allreduce_MAX (map snd rs) = ?M"
    by (simp add: MPI_Allreduce_MAX_eq)
  have "InitializeVectorAsMaxCutCostFunction diags A = Inr (map fst rs, ?M)"
    by (simp add: InitializeVectorAsMaxCutCostFunction_def rs mx)
  moreover have "\<forall>k<length diags. NumQubits (map fst rs ! k) = n \<and>
      GlobalSize (map fst rs ! k) = 2 ^ n \<and> LocalSize (map fst rs ! k) = L"
    using Qk(2,3,4) len by simp
  moreover have "\<forall>x<2 ^ n. amplitudes (map fst rs ! (x div L)) ! (x mod L) =
      Complex (of_int (cut x)) 0"
  proof (intro allI impI)
    fix x :: nat assume x: "x < 2 ^ n"
    note xs = global_index_split [OF sh(3,4) x]
    show "amplitudes (map fst rs ! (x div L)) ! (x mod L) = Complex (of_int (cut x)) 0"
      using Qk(5) [OF xs(1,2)] xs(1) len by (simp add: xs(3))
  qed
  ultimately show ?thesis
    using len unfolding cut_def by (intro exI [of _ "map fst rs"]) simp
qed

lemma collective_odd:
  assumes "register_shards n diags" "checked_invariants n A" "weights_fit_int A"
    and "\<exists>x<2 ^ n. odd (crossing_weight n A (spec_coloring n x))"
  shows "InitializeVectorAsMaxCutCostFunction diags A = Inl OddDifference"
proof -
  define L where "L = 2 ^ n div length diags"
  note sh = shards_facts [OF assms(1), folded L_def]
  have each: "InitializeVectorAsMaxCutCostFunction_rank A k (diags ! k) = Inl OddDifference \<or>
      (\<exists>y. InitializeVectorAsMaxCutCostFunction_rank A k (diags ! k) = Inr y)"
    if "k < length diags" for k
  proof (cases "\<forall>i<L. even (crossing_weight n A (spec_coloring n (k * L + i)))")
    case True
    from rank_ok [OF assms(2,3) sh(1) _ _ _ True, of "diags ! k"] sh(5) [OF that]
    show ?thesis by blast
  next
    case False
    then have "\<exists>i<L. odd (crossing_weight n A (spec_coloring n (k * L + i)))" by simp
    from rank_odd [OF assms(2,3) sh(1) _ _ _ this, of "diags ! k"] sh(5) [OF that]
    show ?thesis by simp
  qed
  have 1: "\<forall>k<length diags. \<forall>e'.
      InitializeVectorAsMaxCutCostFunction_rank A (0 + k) (diags ! k) = Inl e' \<longrightarrow> e' = OddDifference"
    using each by fastforce
  from assms(4) obtain x where x: "x < 2 ^ n" "odd (crossing_weight n A (spec_coloring n x))"
    by blast
  note xs = global_index_split [OF sh(3,4) x(1)]
  have "odd (crossing_weight n A (spec_coloring n (x div L * L + x mod L)))"
    using x(2) by (simp add: xs(3))
  then have "\<exists>i<L. odd (crossing_weight n A (spec_coloring n (x div L * L + i)))"
    using xs(2) by blast
  from rank_odd [OF assms(2,3) sh(1) _ _ _ this, of "diags ! (x div L)"] sh(5) [OF xs(1)]
  have "InitializeVectorAsMaxCutCostFunction_rank A (0 + x div L) (diags ! (x div L)) = Inl OddDifference"
    by simp
  then have 2: "\<exists>k<length diags.
      InitializeVectorAsMaxCutCostFunction_rank A (0 + k) (diags ! k) = Inl OddDifference"
    using xs(1) by blast
  show ?thesis
    by (simp add: InitializeVectorAsMaxCutCostFunction_def run_ranks_Inl [OF 1 2])
qed

text \<open>
  Claim C1. The claim states that, for every adjacency matrix with the invariants of the
  specification, the function stores the cut count \<open>(num_edges - q/2)/2\<close> at the local
  offset of every global index and returns the maximum of the cut count. It fails as
  stated when the sums of the weights do not fit the type \<^verbatim>\<open>int\<close> in which the source
  computes them: with two vertices and the weight \<open>2^30\<close> between them, the sum of the
  entries is \<open>2^31\<close>, the function stores the cost 0 at every index and returns 0, and the
  cut count of the index 1 is \<open>2^30\<close>.
\<close>

theorem InitializeVectorAsMaxCutCostFunction_overflow_counterexample:
  "register_shards 2 [\<lparr>NumQubits = 2, GlobalSize = 4, amplitudes = [0, 0, 0, 0]\<rparr>] \<and>
   adjacency_invariants 2 [0, 1073741824, 1073741824, 0] \<and>
   nonnegative_weights [0, 1073741824, 1073741824, 0] \<and>
   InitializeVectorAsMaxCutCostFunction
     [\<lparr>NumQubits = 2, GlobalSize = 4, amplitudes = [0, 0, 0, 0]\<rparr>]
     [0, 1073741824, 1073741824, 0] =
   Inr ([\<lparr>NumQubits = 2, GlobalSize = 4, amplitudes = [0, 0, 0, 0]\<rparr>], 0) \<and>
   spec_cut 2 [0, 1073741824, 1073741824, 0] 1 = 1073741824"
  by code_simp

text \<open>
  Claim C1, amended. For the registers of the processes of an \<open>n\<close>-qubit state and an
  adjacency matrix with the invariants of the specification whose weights fit (the sum
  of their absolute values is at most \<open>2^31 - 1\<close>), the function returns; at the local
  offset \<open>x mod L\<close> of the process \<open>x div L\<close> (\<open>L\<close> is the local size), which is where
  the global index \<open>x\<close> lives, it has stored the cut count \<open>(num_edges - q/2)/2\<close> of the
  specification; and the value it returns is the maximum of the cut count over all the
  global indices.
\<close>

theorem InitializeVectorAsMaxCutCostFunction_correct:
  assumes "register_shards n diags" "adjacency_invariants n A" "weights_fit_int A"
  shows "\<exists>diags'. InitializeVectorAsMaxCutCostFunction diags A =
            Inr (diags', Max (spec_cut n A ` {..<2 ^ n})) \<and>
          length diags' = length diags \<and>
          (\<forall>k<length diags. NumQubits (diags' ! k) = n \<and> GlobalSize (diags' ! k) = 2 ^ n \<and>
             LocalSize (diags' ! k) = 2 ^ n div length diags) \<and>
          (\<forall>x<2 ^ n. amplitudes (diags' ! (x div (2 ^ n div length diags)))
                        ! (x mod (2 ^ n div length diags)) =
             Complex (of_int (spec_cut n A x)) 0)"
  using assms(1) checked_of_invariants [OF assms(2)] assms(3)
proof (rule collective_ok)
  show "\<forall>x<2 ^ n. even (crossing_weight n A (spec_coloring n x))"
    using even_crossing_weight [OF assms(2)] by simp
qed

theorem InitializeVectorAsMaxCutCostFunction_correct_witness:
  "register_shards 3
     [\<lparr>NumQubits = 3, GlobalSize = 8, amplitudes = [0, 0, 0, 0]\<rparr>,
      \<lparr>NumQubits = 3, GlobalSize = 8, amplitudes = [0, 0, 0, 0]\<rparr>] \<and>
   adjacency_invariants 3 [0, 1, 1, 1, 0, 1, 1, 1, 0] \<and>
   weights_fit_int [0, 1, 1, 1, 0, 1, 1, 1, 0] \<and>
   InitializeVectorAsMaxCutCostFunction
     [\<lparr>NumQubits = 3, GlobalSize = 8, amplitudes = [0, 0, 0, 0]\<rparr>,
      \<lparr>NumQubits = 3, GlobalSize = 8, amplitudes = [0, 0, 0, 0]\<rparr>]
     [0, 1, 1, 1, 0, 1, 1, 1, 0] =
   Inr ([\<lparr>NumQubits = 3, GlobalSize = 8, amplitudes = [0, 2, 2, 2]\<rparr>,
         \<lparr>NumQubits = 3, GlobalSize = 8, amplitudes = [2, 2, 2, 0]\<rparr>], 2) \<and>
   Max (spec_cut 3 [0, 1, 1, 1, 0, 1, 1, 1, 0] ` {..<2 ^ 3}) = 2"
proof -
  let ?regs = "[\<lparr>NumQubits = 3, GlobalSize = 8, amplitudes = [0, 0, 0, 0]\<rparr>,
      \<lparr>NumQubits = 3, GlobalSize = 8, amplitudes = [0, 0, 0, 0]\<rparr>]"
  let ?A = "[0, 1, 1, 1, 0, 1, 1, 1, 0] :: int list"
  have h1: "register_shards 3 ?regs" by code_simp
  have h2: "adjacency_invariants 3 ?A" by code_simp
  have h3: "weights_fit_int ?A" by code_simp
  have run: "InitializeVectorAsMaxCutCostFunction ?regs ?A =
     Inr ([\<lparr>NumQubits = 3, GlobalSize = 8, amplitudes = [0, 2, 2, 2]\<rparr>,
           \<lparr>NumQubits = 3, GlobalSize = 8, amplitudes = [2, 2, 2, 0]\<rparr>], 2)"
    by code_simp
  from InitializeVectorAsMaxCutCostFunction_correct [OF h1 h2 h3] run
  have "Max (spec_cut 3 ?A ` {..<2 ^ 3}) = 2" by simp
  with h1 h2 h3 run show ?thesis by simp
qed

text \<open>
  Claim C3. For an adjacency matrix that is symmetric, has a zero diagonal and an even sum
  of entries, and for every coloring \<open>c\<close> in \<open>{-1,+1}\<^sup>n\<close>, where \<open>n < 64\<close> is the number
  of qubits of a register: the quadratic form \<open>q\<close> is even and \<open>num_edges - q/2\<close> is even. The same holds of the 32-bit values that the
  source computes, whatever the size of the weights: the preliminary checks pass, the
  conditions of the two assertions of the loop hold, the two divisions by 2 are exact,
  and the body of the loop returns for every global index below \<open>2^n\<close>.
\<close>

theorem exactness_assertions_hold:
  assumes "adjacency_invariants n A" "is_coloring n c" "n < 64"
  shows "even (spec_q n A c) \<and> even (spec_num_edges A - spec_q n A c div 2) \<and>
         (\<exists>num_edges. adjacency_checks n A = Inr num_edges \<and>
            quadratic_form n A c smod 2 = 0 \<and>
            int32 (num_edges - quadratic_form n A c sdiv 2) smod 2 = 0 \<and>
            2 * (quadratic_form n A c sdiv 2) = quadratic_form n A c \<and>
            2 * (int32 (num_edges - quadratic_form n A c sdiv 2) sdiv 2) =
              int32 (num_edges - quadratic_form n A c sdiv 2) \<and>
            (length xbin = n \<and> unat (glb_start + word_of_nat i) < 2 ^ n \<longrightarrow>
               (\<exists>s'. cost_body n num_edges A glb_start i (d, max_cut, xbin) = Inr s')))"
proof -
  note chk = checked_of_invariants [OF assms(1)]
  have len: "length A = n * n" and ev: "even (sum_list A)"
    using chk by (simp_all add: checked_invariants_def)
  have parity: "even (spec_q n A c') \<and> even (spec_num_edges A - spec_q n A c' div 2) \<and>
      even (int32 (spec_q n A c')) \<and>
      even (int32 (int32 (sum_list A) div 2 - int32 (spec_q n A c') div 2))"
    if "is_coloring n c'" for c'
  proof -
    have q: "even (spec_q n A c')" by (rule even_q [OF len ev that])
    have d: "even (spec_num_edges A - spec_q n A c' div 2)"
      using even_crossing_weight [OF assms(1)]
      by (simp add: difference_eq_crossing_weight [OF len ev that])
    then have "even (int32 (int32 (sum_list A) div 2 - int32 (spec_q n A c') div 2))"
      by (simp add: wrapped_difference_parity [OF ev q] spec_num_edges_def)
    then show ?thesis using q d by (simp add: even_int32)
  qed
  have body: "\<exists>s'. cost_body n (int32 (sum_list A) div 2) A glb_start i (d, max_cut, xbin) = Inr s'"
    if "length xbin = n" "unat (glb_start + word_of_nat i) < 2 ^ n"
    using cost_body_wrap [OF chk assms(3) that(1) refl that(2), of d max_cut]
      parity [OF is_coloring_spec_coloring] by simp
  have qf: "even (int32 (spec_q n A c))"
    and df: "even (int32 (int32 (sum_list A) div 2 - int32 (spec_q n A c) div 2))"
    using parity [OF assms(2)] by simp_all
  have "adjacency_checks n A = Inr (int32 (sum_list A) div 2) \<and>
      quadratic_form n A c smod 2 = 0 \<and>
      int32 (int32 (sum_list A) div 2 - quadratic_form n A c sdiv 2) smod 2 = 0 \<and>
      2 * (quadratic_form n A c sdiv 2) = quadratic_form n A c \<and>
      2 * (int32 (int32 (sum_list A) div 2 - quadratic_form n A c sdiv 2) sdiv 2) =
        int32 (int32 (sum_list A) div 2 - quadratic_form n A c sdiv 2)"
    using qf df
    by (simp add: adjacency_checks_wrap [OF chk] quadratic_form_wrap smod_2_eq_0_iff even_sdiv_2)
  then show ?thesis using parity [OF assms(2)] body by blast
qed

theorem exactness_assertions_hold_witness:
  "adjacency_invariants 3 [0, 1, 1, 1, 0, 1, 1, 1, 0] \<and> is_coloring 3 [1, - 1, 1] \<and>
   (3::nat) < 64 \<and>
   spec_q 3 [0, 1, 1, 1, 0, 1, 1, 1, 0] [1, - 1, 1] = - 2 \<and>
   quadratic_form 3 [0, 1, 1, 1, 0, 1, 1, 1, 0] [1, - 1, 1] = - 2 \<and>
   adjacency_checks 3 [0, 1, 1, 1, 0, 1, 1, 1, 0] = Inr 3 \<and>
   even (spec_q 3 [0, 1, 1, 1, 0, 1, 1, 1, 0] [1, - 1, 1]) \<and>
   even (spec_num_edges [0, 1, 1, 1, 0, 1, 1, 1, 0] -
         spec_q 3 [0, 1, 1, 1, 0, 1, 1, 1, 0] [1, - 1, 1] div 2) \<and>
   int32 (3 - quadratic_form 3 [0, 1, 1, 1, 0, 1, 1, 1, 0] [1, - 1, 1] sdiv 2) smod 2 = 0"
proof -
  let ?A = "[0, 1, 1, 1, 0, 1, 1, 1, 0] :: int list"
  have h1: "adjacency_invariants 3 ?A" by code_simp
  have h2: "is_coloring 3 [1, - 1, 1]" by code_simp
  have h3: "(3::nat) < 64" by simp
  have v: "spec_q 3 ?A [1, - 1, 1] = - 2" "quadratic_form 3 ?A [1, - 1, 1] = - 2"
    "adjacency_checks 3 ?A = Inr 3"
    by code_simp+
  from exactness_assertions_hold [OF h1 h2 h3] v(3)
  have "even (spec_q 3 ?A [1, - 1, 1]) \<and>
      even (spec_num_edges ?A - spec_q 3 ?A [1, - 1, 1] div 2) \<and>
      int32 (3 - quadratic_form 3 ?A [1, - 1, 1] sdiv 2) smod 2 = 0"
    by auto
  with h1 h2 h3 v show ?thesis by blast
qed

text \<open>
  Claim C7. The claim states that a matrix that is not symmetric, but has the right size,
  a zero diagonal and an even sum, makes the function fail. The function has no check of
  the symmetry: with two vertices and the matrix \<open>[[0,2],[0,0]]\<close> every assertion holds,
  and the function returns the costs \<open>0, 1, 1, 0\<close> and the maximum 1.
\<close>

theorem asymmetric_matrix_accepted_counterexample:
  "[0, 2, 0, 0] ! (0 * 2 + 1) \<noteq> ([0, 2, 0, 0] ! (1 * 2 + 0) :: int) \<and>
   checked_invariants 2 [0, 2, 0, 0] \<and>
   InitializeVectorAsMaxCutCostFunction
     [\<lparr>NumQubits = 2, GlobalSize = 4, amplitudes = [0, 0, 0, 0]\<rparr>] [0, 2, 0, 0] =
   Inr ([\<lparr>NumQubits = 2, GlobalSize = 4, amplitudes = [0, 1, 1, 0]\<rparr>], 1)"
  by code_simp

text \<open>
  Claim C7, amended. For a matrix that has the right size, a zero diagonal and an even
  sum, symmetric or not, and whose weights fit (the sum of their absolute values is at
  most \<open>2^31 - 1\<close>), the function fails exactly when \<open>num_edges - q/2\<close> is odd for some
  global index, and the failure is the one of the second assertion of the loop;
  otherwise it returns the maximum cut and the cost array, which holds the cut count
  \<open>(num_edges - q/2)/2\<close> of every global index. The symmetry itself is not checked.
\<close>

theorem InitializeVectorAsMaxCutCostFunction_checks:
  assumes "register_shards n diags" "checked_invariants n A" "weights_fit_int A"
  shows "if \<forall>x<2 ^ n. even (spec_num_edges A - spec_q n A (spec_coloring n x) div 2)
         then \<exists>diags'. InitializeVectorAsMaxCutCostFunction diags A =
                  Inr (diags', Max (spec_cut n A ` {..<2 ^ n})) \<and>
                length diags' = length diags \<and>
                (\<forall>k<length diags. NumQubits (diags' ! k) = n \<and>
                   GlobalSize (diags' ! k) = 2 ^ n \<and>
                   LocalSize (diags' ! k) = 2 ^ n div length diags) \<and>
                (\<forall>x<2 ^ n. amplitudes (diags' ! (x div (2 ^ n div length diags)))
                              ! (x mod (2 ^ n div length diags)) =
                   Complex (of_int (spec_cut n A x)) 0)
         else InitializeVectorAsMaxCutCostFunction diags A = Inl OddDifference"
proof -
  have len: "length A = n * n" and ev: "even (sum_list A)"
    using assms(2) by (simp_all add: checked_invariants_def)
  have diff: "spec_num_edges A - spec_q n A (spec_coloring n x) div 2 =
      crossing_weight n A (spec_coloring n x)" for x
    by (rule difference_eq_crossing_weight [OF len ev is_coloring_spec_coloring])
  show ?thesis
  proof (cases "\<forall>x<2 ^ n. even (crossing_weight n A (spec_coloring n x))")
    case True
    have cond: "\<forall>x<2 ^ n. even (spec_num_edges A - spec_q n A (spec_coloring n x) div 2)"
      using True by (simp add: diff)
    show ?thesis
      unfolding if_P [OF cond] by (rule collective_ok [OF assms True])
  next
    case False
    then have odd: "\<exists>x<2 ^ n. odd (crossing_weight n A (spec_coloring n x))" by simp
    have ncond: "\<not> (\<forall>x<2 ^ n. even (spec_num_edges A - spec_q n A (spec_coloring n x) div 2))"
      using False by (simp add: diff)
    show ?thesis
      unfolding if_not_P [OF ncond] by (rule collective_odd [OF assms odd])
  qed
qed

theorem InitializeVectorAsMaxCutCostFunction_checks_witness:
  "register_shards 3 [\<lparr>NumQubits = 3, GlobalSize = 8, amplitudes = [0, 0, 0, 0, 0, 0, 0, 0]\<rparr>] \<and>
   checked_invariants 3 [0, 1, 1, 0, 0, 0, 0, 0, 0] \<and>
   weights_fit_int [0, 1, 1, 0, 0, 0, 0, 0, 0] \<and>
   odd (spec_num_edges [0, 1, 1, 0, 0, 0, 0, 0, 0] -
        spec_q 3 [0, 1, 1, 0, 0, 0, 0, 0, 0] (spec_coloring 3 2) div 2) \<and>
   InitializeVectorAsMaxCutCostFunction
     [\<lparr>NumQubits = 3, GlobalSize = 8, amplitudes = [0, 0, 0, 0, 0, 0, 0, 0]\<rparr>]
     [0, 1, 1, 0, 0, 0, 0, 0, 0] = Inl OddDifference"
proof -
  let ?regs = "[\<lparr>NumQubits = 3, GlobalSize = 8, amplitudes = [0, 0, 0, 0, 0, 0, 0, 0]\<rparr>]"
  let ?A = "[0, 1, 1, 0, 0, 0, 0, 0, 0] :: int list"
  have h1: "register_shards 3 ?regs" by code_simp
  have h2: "checked_invariants 3 ?A" by code_simp
  have h4: "weights_fit_int ?A" by code_simp
  have h3: "odd (spec_num_edges ?A - spec_q 3 ?A (spec_coloring 3 2) div 2)" by code_simp
  have "(2::nat) < 2 ^ 3" by simp
  with h3 have "\<not> (\<forall>x<2 ^ 3. even (spec_num_edges ?A - spec_q 3 ?A (spec_coloring 3 x) div 2))"
    by blast
  with InitializeVectorAsMaxCutCostFunction_checks [OF h1 h2 h4]
  have "InitializeVectorAsMaxCutCostFunction ?regs ?A = Inl OddDifference"
    by (simp only: if_False)
  with h1 h2 h3 h4 show ?thesis by blast
qed

text \<open>
  Claim C9. The claim states that, for every adjacency matrix with the invariants of the
  specification, every stored cost and the returned maximum lie in \<open>[0, num_edges]\<close>. It
  fails as stated when the sums of the weights do not fit the type \<^verbatim>\<open>int\<close>: with three
  vertices and the weights \<open>2^30\<close> and \<open>2^29\<close> on the edges of the vertex 0, the sum of
  the entries is \<open>3 * 2^30\<close> and the function stores the cost \<open>-2^29\<close> at the index 1.
\<close>

theorem cost_values_overflow_counterexample:
  "register_shards 3 [\<lparr>NumQubits = 3, GlobalSize = 8, amplitudes = [0, 0, 0, 0, 0, 0, 0, 0]\<rparr>] \<and>
   adjacency_invariants 3 [0, 1073741824, 536870912, 1073741824, 0, 0, 536870912, 0, 0] \<and>
   nonnegative_weights [0, 1073741824, 536870912, 1073741824, 0, 0, 536870912, 0, 0] \<and>
   spec_num_edges [0, 1073741824, 536870912, 1073741824, 0, 0, 536870912, 0, 0] = 1610612736 \<and>
   InitializeVectorAsMaxCutCostFunction
     [\<lparr>NumQubits = 3, GlobalSize = 8, amplitudes = [0, 0, 0, 0, 0, 0, 0, 0]\<rparr>]
     [0, 1073741824, 536870912, 1073741824, 0, 0, 536870912, 0, 0] =
   Inr ([\<lparr>NumQubits = 3, GlobalSize = 8,
           amplitudes = [0, Complex (- 536870912) 0, 0, Complex (- 536870912) 0,
                         Complex (- 536870912) 0, 0, Complex (- 536870912) 0, 0]\<rparr>], 0)"
  by code_simp

text \<open>
  Claim C9, amended. For an adjacency matrix with the invariants of the specification,
  which describes the weights as non-negative, and whose weights fit (their sum is at
  most \<open>2^31 - 1\<close>), every cost that the function stores is an integer from 0 to
  \<open>num_edges\<close>, and so is the maximum that it returns.
\<close>

theorem cost_values_bounded:
  assumes "register_shards n diags" "adjacency_invariants n A" "nonnegative_weights A"
    "weights_fit_int A"
  shows "\<exists>diags' max_cost. InitializeVectorAsMaxCutCostFunction diags A = Inr (diags', max_cost) \<and>
          0 \<le> max_cost \<and> max_cost \<le> spec_num_edges A \<and>
          (\<forall>x<2 ^ n. \<exists>cut. amplitudes (diags' ! (x div (2 ^ n div length diags)))
                                ! (x mod (2 ^ n div length diags)) = Complex (of_int cut) 0 \<and>
                            0 \<le> cut \<and> cut \<le> spec_num_edges A)"
proof -
  note chk = checked_of_invariants [OF assms(2)]
  have len: "length A = n * n" using chk by (simp add: checked_invariants_def)
  have bounds: "0 \<le> spec_cut n A x \<and> spec_cut n A x \<le> spec_num_edges A" for x
  proof -
    have "0 \<le> crossing_weight n A (spec_coloring n x)"
      "crossing_weight n A (spec_coloring n x) \<le> sum_list A"
      using crossing_weight_bounds [OF len assms(3)] by simp_all
    then show ?thesis
      by (simp add: spec_cut_eq [OF chk] spec_num_edges_def zdiv_mono1)
  qed
  have ev: "\<forall>x<2 ^ n. even (crossing_weight n A (spec_coloring n x))"
    using even_crossing_weight [OF assms(2)] by simp
  from collective_ok [OF assms(1) chk assms(4) ev] obtain diags' where
    run: "InitializeVectorAsMaxCutCostFunction diags A =
            Inr (diags', Max (spec_cut n A ` {..<2 ^ n}))"
    and nth: "\<forall>x<2 ^ n. amplitudes (diags' ! (x div (2 ^ n div length diags)))
                        ! (x mod (2 ^ n div length diags)) =
             Complex (of_int (spec_cut n A x)) 0"
    by blast
  have "(0::nat) \<in> {..<2 ^ n}" by simp
  then have "spec_cut n A ` {..<2 ^ n} \<noteq> {}" by blast
  then have "Max (spec_cut n A ` {..<2 ^ n}) \<in> spec_cut n A ` {..<2 ^ n}"
    by (intro Max_in) simp_all
  then have "0 \<le> Max (spec_cut n A ` {..<2 ^ n}) \<and>
      Max (spec_cut n A ` {..<2 ^ n}) \<le> spec_num_edges A"
    using bounds by auto
  then show ?thesis using run nth bounds by blast
qed

theorem cost_values_bounded_witness:
  "register_shards 3
     [\<lparr>NumQubits = 3, GlobalSize = 8, amplitudes = [0, 0, 0, 0]\<rparr>,
      \<lparr>NumQubits = 3, GlobalSize = 8, amplitudes = [0, 0, 0, 0]\<rparr>] \<and>
   adjacency_invariants 3 [0, 1, 1, 1, 0, 1, 1, 1, 0] \<and>
   nonnegative_weights [0, 1, 1, 1, 0, 1, 1, 1, 0] \<and>
   weights_fit_int [0, 1, 1, 1, 0, 1, 1, 1, 0] \<and>
   spec_num_edges [0, 1, 1, 1, 0, 1, 1, 1, 0] = 3 \<and>
   (\<exists>diags' max_cost.
      InitializeVectorAsMaxCutCostFunction
        [\<lparr>NumQubits = 3, GlobalSize = 8, amplitudes = [0, 0, 0, 0]\<rparr>,
         \<lparr>NumQubits = 3, GlobalSize = 8, amplitudes = [0, 0, 0, 0]\<rparr>]
        [0, 1, 1, 1, 0, 1, 1, 1, 0] = Inr (diags', max_cost) \<and>
      0 \<le> max_cost \<and> max_cost \<le> 3)"
proof -
  let ?regs = "[\<lparr>NumQubits = 3, GlobalSize = 8, amplitudes = [0, 0, 0, 0]\<rparr>,
      \<lparr>NumQubits = 3, GlobalSize = 8, amplitudes = [0, 0, 0, 0]\<rparr>]"
  let ?A = "[0, 1, 1, 1, 0, 1, 1, 1, 0] :: int list"
  have h1: "register_shards 3 ?regs" by code_simp
  have h2: "adjacency_invariants 3 ?A" by code_simp
  have h3: "nonnegative_weights ?A" by code_simp
  have h4: "weights_fit_int ?A" by code_simp
  have v: "spec_num_edges ?A = 3" by code_simp
  from cost_values_bounded [OF h1 h2 h3 h4] h1 h2 h3 h4 v show ?thesis
    by (simp only: v) blast
qed

section \<open>Properties of the reductions over the amplitudes\<close>

lemma MPI_Allreduce_SUM_eq: "MPI_Allreduce_SUM vs = sum_list vs"
proof -
  have "foldl (+) a vs = a + sum_list vs" for a :: real
    by (induction vs arbitrary: a) simp_all
  then show ?thesis by (simp add: MPI_Allreduce_SUM_def)
qed

lemma sum_append_nth:
  fixes G :: "'a \<Rightarrow> 'b \<Rightarrow> real"
  assumes "length xs = length ys"
  shows "(\<Sum>i<length (xs @ xs'). G ((xs @ xs') ! i) ((ys @ ys') ! i)) =
         (\<Sum>i<length xs. G (xs ! i) (ys ! i)) + (\<Sum>i<length xs'. G (xs' ! i) (ys' ! i))"
proof -
  let ?m = "length xs" and ?k = "length xs'"
  let ?F = "\<lambda>i. G ((xs @ xs') ! i) ((ys @ ys') ! i)"
  have "{..<?m + ?k} = {..<?m} \<union> {?m..<?m + ?k}" "{..<?m} \<inter> {?m..<?m + ?k} = {}"
    by auto
  then have "(\<Sum>i<?m + ?k. ?F i) = (\<Sum>i<?m. ?F i) + (\<Sum>i = ?m..<?m + ?k. ?F i)"
    by (simp add: sum.union_disjoint)
  also have "(\<Sum>i<?m. ?F i) = (\<Sum>i<?m. G (xs ! i) (ys ! i))"
    using assms by (intro sum.cong refl) (simp add: nth_append)
  also have "(\<Sum>i = ?m..<?m + ?k. ?F i) = (\<Sum>i<?k. ?F (i + ?m))"
    using sum.shift_bounds_nat_ivl [of ?F 0 ?m ?k]
    by (simp add: atLeast0LessThan add.commute)
  also have "\<dots> = (\<Sum>i<?k. G (xs' ! i) (ys' ! i))"
    using assms by (intro sum.cong refl) (simp add: nth_append)
  finally show ?thesis by simp
qed

lemma global_sum:
  fixes G :: "complex \<Rightarrow> complex \<Rightarrow> real"
  assumes "\<forall>(psi, diag)\<in>set pds. LocalSize psi = LocalSize diag"
  shows "length (global_array (map fst pds)) = length (global_array (map snd pds)) \<and>
         sum_list (map (\<lambda>(psi, diag). \<Sum>i<LocalSize psi. G (amplitudes psi ! i) (amplitudes diag ! i)) pds) =
         (\<Sum>x<length (global_array (map fst pds)).
            G (global_array (map fst pds) ! x) (global_array (map snd pds) ! x))"
  using assms
proof (induction pds)
  case Nil
  then show ?case by (simp add: global_array_def)
next
  case (Cons pd pds)
  obtain psi diag where pd: "pd = (psi, diag)" by (cases pd)
  have eq: "length (amplitudes psi) = length (amplitudes diag)"
    using Cons.prems by (simp add: pd LocalSize_def)
  have IH: "length (global_array (map fst pds)) = length (global_array (map snd pds))"
    "sum_list (map (\<lambda>(psi, diag). \<Sum>i<LocalSize psi. G (amplitudes psi ! i) (amplitudes diag ! i)) pds) =
         (\<Sum>x<length (global_array (map fst pds)).
            G (global_array (map fst pds) ! x) (global_array (map snd pds) ! x))"
    using Cons by simp_all
  have ga: "global_array (map fst (pd # pds)) = amplitudes psi @ global_array (map fst pds)"
    "global_array (map snd (pd # pds)) = amplitudes diag @ global_array (map snd pds)"
    by (simp_all add: global_array_def pd)
  have "(\<Sum>x<length (global_array (map fst (pd # pds))).
            G (global_array (map fst (pd # pds)) ! x) (global_array (map snd (pd # pds)) ! x)) =
        (\<Sum>i<length (amplitudes psi). G (amplitudes psi ! i) (amplitudes diag ! i)) +
        (\<Sum>x<length (global_array (map fst pds)).
            G (global_array (map fst pds) ! x) (global_array (map snd pds) ! x))"
    unfolding ga by (rule sum_append_nth [OF eq])
  moreover have "sum_list (map (\<lambda>(psi, diag). \<Sum>i<LocalSize psi. G (amplitudes psi ! i) (amplitudes diag ! i)) (pd # pds)) =
        (\<Sum>i<length (amplitudes psi). G (amplitudes psi ! i) (amplitudes diag ! i)) +
        (\<Sum>x<length (global_array (map fst pds)).
            G (global_array (map fst pds) ! x) (global_array (map snd pds) ! x))"
    by (simp add: pd LocalSize_def IH(2) [symmetric])
  moreover have "length (global_array (map fst (pd # pds))) = length (global_array (map snd (pd # pds)))"
    unfolding ga using eq IH(1) by simp
  ultimately show ?case by simp
qed

lemma expectation_loop_eq:
  assumes "\<forall>i\<in>set is. i < LocalSize diag"
  shows "expectation_loop psi diag is acc =
         Inr (acc + sum_list (map (\<lambda>i. Re (amplitudes diag ! i) * std_norm (amplitudes psi ! i)) is))"
  using assms by (induction "is" arbitrary: acc) (simp_all add: add.assoc)

lemma expectation_rank_eq:
  assumes "LocalSize psi = LocalSize diag"
  shows "GetExpectationValueFromCostFunction_rank r (psi, diag) =
         Inr (\<Sum>i<LocalSize psi. std_norm (amplitudes psi ! i) * Re (amplitudes diag ! i))"
proof -
  have "\<forall>i\<in>set [0..<LocalSize psi]. i < LocalSize diag" using assms by simp
  from expectation_loop_eq [OF this, of psi 0] show ?thesis
    by (simp add: GetExpectationValueFromCostFunction_rank_def interv_sum_list_conv_sum_set_nat
        atLeast0LessThan mult.commute)
qed

lemma run_ranks_map:
  assumes "\<forall>x\<in>set xs. \<forall>r. f r x = Inr (g x)"
  shows "run_ranks f r xs = Inr (map g xs)"
  using assms by (induction xs arbitrary: r) simp_all

lemma expectation_run:
  assumes "\<forall>(psi, diag)\<in>set pds. LocalSize psi = LocalSize diag"
  shows "run_ranks GetExpectationValueFromCostFunction_rank r pds =
         Inr (map (\<lambda>(psi, diag). \<Sum>i<LocalSize psi.
                      std_norm (amplitudes psi ! i) * Re (amplitudes diag ! i)) pds)"
proof -
  let ?g = "\<lambda>(psi, diag). \<Sum>i<LocalSize psi. std_norm (amplitudes psi ! i) * Re (amplitudes diag ! i)"
  have "\<forall>pd\<in>set pds. \<forall>r. GetExpectationValueFromCostFunction_rank r pd = Inr (?g pd)"
    using assms expectation_rank_eq by fastforce
  then show ?thesis by (rule run_ranks_map)
qed

lemma expectation_eq:
  assumes "\<forall>(psi, diag)\<in>set pds. LocalSize psi = LocalSize diag"
  shows "GetExpectationValueFromCostFunction pds =
         Inr (\<Sum>x<length (global_array (map fst pds)).
                std_norm (global_array (map fst pds) ! x) * Re (global_array (map snd pds) ! x))"
  using global_sum [OF assms, of "\<lambda>a c. std_norm a * Re c"]
  by (simp add: GetExpectationValueFromCostFunction_def MPI_Allreduce_SUM_eq
      expectation_run [OF assms])

text \<open>
  Claim C4. When the amplitude and cost shards have the same size in every process, the
  function returns the sum over all the global indices of \<open>cost[i] * |amplitude[i]|\<^sup>2\<close>;
  and when the \<open>2^n\<close> squared magnitudes are all \<open>1/2^n\<close>, this is the arithmetic mean
  of the costs.
\<close>

theorem GetExpectationValueFromCostFunction_correct:
  assumes "equal_local_sizes pds"
  defines "amplitude_array \<equiv> global_array (map fst pds)"
    and "cost_array \<equiv> global_array (map snd pds)"
  shows "length amplitude_array = length cost_array \<and>
         GetExpectationValueFromCostFunction pds =
           Inr (\<Sum>i<length amplitude_array. Re (cost_array ! i) * std_norm (amplitude_array ! i)) \<and>
         (length amplitude_array = 2 ^ n \<and>
          (\<forall>i<length amplitude_array. std_norm (amplitude_array ! i) = 1 / 2 ^ n) \<longrightarrow>
          GetExpectationValueFromCostFunction pds =
            Inr ((\<Sum>i<2 ^ n. Re (cost_array ! i)) / 2 ^ n))"
proof -
  have sizes: "\<forall>(psi, diag)\<in>set pds. LocalSize psi = LocalSize diag"
    using assms(1) by (simp add: equal_local_sizes_def)
  have len: "length amplitude_array = length cost_array"
    using global_sum [OF sizes, of "\<lambda>a c. 0"] by (simp add: amplitude_array_def cost_array_def)
  have run: "GetExpectationValueFromCostFunction pds =
      Inr (\<Sum>i<length amplitude_array. Re (cost_array ! i) * std_norm (amplitude_array ! i))"
    using expectation_eq [OF sizes]
    by (simp add: amplitude_array_def cost_array_def mult.commute)
  have "(\<Sum>i<length amplitude_array. Re (cost_array ! i) * std_norm (amplitude_array ! i)) =
        (\<Sum>i<2 ^ n. Re (cost_array ! i)) / 2 ^ n"
    if "length amplitude_array = 2 ^ n"
      "\<forall>i<length amplitude_array. std_norm (amplitude_array ! i) = 1 / 2 ^ n"
  proof -
    have "(\<Sum>i<length amplitude_array. Re (cost_array ! i) * std_norm (amplitude_array ! i)) =
          (\<Sum>i<length amplitude_array. Re (cost_array ! i) / 2 ^ n)"
      using that(2) by (intro sum.cong refl) simp
    then show ?thesis by (simp add: that(1) sum_divide_distrib)
  qed
  then show ?thesis using len run by simp
qed

theorem GetExpectationValueFromCostFunction_correct_witness:
  "equal_local_sizes
       [(\<lparr>NumQubits = 1, GlobalSize = 2, amplitudes = [Complex (1 / 2) (1 / 2)]\<rparr>,
         \<lparr>NumQubits = 1, GlobalSize = 2, amplitudes = [3]\<rparr>),
        (\<lparr>NumQubits = 1, GlobalSize = 2, amplitudes = [Complex (1 / 2) (- 1 / 2)]\<rparr>,
         \<lparr>NumQubits = 1, GlobalSize = 2, amplitudes = [5]\<rparr>)] \<and>
   std_norm (Complex (1 / 2) (1 / 2)) = 1 / 2 ^ 1 \<and>
   std_norm (Complex (1 / 2) (- 1 / 2)) = 1 / 2 ^ 1 \<and>
   GetExpectationValueFromCostFunction
       [(\<lparr>NumQubits = 1, GlobalSize = 2, amplitudes = [Complex (1 / 2) (1 / 2)]\<rparr>,
         \<lparr>NumQubits = 1, GlobalSize = 2, amplitudes = [3]\<rparr>),
        (\<lparr>NumQubits = 1, GlobalSize = 2, amplitudes = [Complex (1 / 2) (- 1 / 2)]\<rparr>,
         \<lparr>NumQubits = 1, GlobalSize = 2, amplitudes = [5]\<rparr>)] = Inr ((3 + 5) / 2)"
proof -
  let ?pds = "[(\<lparr>NumQubits = 1, GlobalSize = 2, amplitudes = [Complex (1 / 2) (1 / 2)]\<rparr>,
         \<lparr>NumQubits = 1, GlobalSize = 2, amplitudes = [3]\<rparr>),
        (\<lparr>NumQubits = 1, GlobalSize = 2, amplitudes = [Complex (1 / 2) (- 1 / 2)]\<rparr>,
         \<lparr>NumQubits = 1, GlobalSize = 2, amplitudes = [5]\<rparr>)]"
  have h: "equal_local_sizes ?pds"
    by (simp add: equal_local_sizes_def LocalSize_def)
  have n1: "std_norm (Complex (1 / 2) (1 / 2)) = 1 / 2 ^ 1"
    and n2: "std_norm (Complex (1 / 2) (- 1 / 2)) = 1 / 2 ^ 1"
    by (simp_all add: std_norm_def)
  have amp: "global_array (map fst ?pds) = [Complex (1 / 2) (1 / 2), Complex (1 / 2) (- 1 / 2)]"
    and cost: "global_array (map snd ?pds) = [3, 5]"
    by (simp_all add: global_array_def)
  have u: "length (global_array (map fst ?pds)) = 2 ^ 1 \<and>
      (\<forall>i<length (global_array (map fst ?pds)).
         std_norm (global_array (map fst ?pds) ! i) = 1 / 2 ^ 1)"
    unfolding amp using n1 n2 by (simp add: less_Suc_eq numeral_2_eq_2 all_conj_distrib)
  from GetExpectationValueFromCostFunction_correct [OF h, of 1] u
  have "GetExpectationValueFromCostFunction ?pds =
      Inr ((\<Sum>i<2 ^ 1. Re (global_array (map snd ?pds) ! i)) / 2 ^ 1)"
    by blast
  then have "GetExpectationValueFromCostFunction ?pds = Inr ((3 + 5) / 2)"
    unfolding cost by (simp add: lessThan_Suc numeral_2_eq_2)
  with h n1 n2 show ?thesis by blast
qed

text \<open>
  Claim C8. The claim states that the function detects amplitude and cost arrays of
  different local or global sizes and fails without a value. The function has no
  assertion on the sizes of its two arguments, unlike ImplementQaoaLayerBasedOnCostFunction
  and GetHistogramFromCostFunction. With one amplitude and two costs it returns the value
  computed from the first cost; with two amplitudes and one cost it reads the second cost
  outside of the cost shard.
\<close>

theorem GetExpectationValueFromCostFunction_size_mismatch:
  "GetExpectationValueFromCostFunction
     [(\<lparr>NumQubits = 0, GlobalSize = 1, amplitudes = [1]\<rparr>,
       \<lparr>NumQubits = 1, GlobalSize = 2, amplitudes = [3, 5]\<rparr>)] = Inr 3 \<and>
   GetExpectationValueFromCostFunction
     [(\<lparr>NumQubits = 1, GlobalSize = 2, amplitudes = [1, 0]\<rparr>,
       \<lparr>NumQubits = 0, GlobalSize = 1, amplitudes = [3]\<rparr>)] = Inl OutOfBounds"
  by code_simp

lemma histogram_loop_eq:
  assumes "\<forall>i\<in>set is. 0 \<le> int_cast (Re (amplitudes diag ! i)) \<and>
             int_cast (Re (amplitudes diag ! i)) \<le> max_value"
    and "length h = nat (max_value + 1)"
  shows "\<exists>h'. histogram_loop psi diag max_value is h = Inr h' \<and> length h' = length h \<and>
           (\<forall>b<length h. h' ! b = h ! b +
              sum_list (map (\<lambda>i. if int_cast (Re (amplitudes diag ! i)) = int b
                                   then std_norm (amplitudes psi ! i) else 0) is))"
  using assms
proof (induction "is" arbitrary: h)
  case Nil
  then show ?case by simp
next
  case (Cons i "is")
  let ?cut = "int_cast (Re (amplitudes diag ! i))"
  let ?h = "h[nat ?cut := h ! nat ?cut + std_norm (amplitudes psi ! i)]"
  have cut: "0 \<le> ?cut" "?cut \<le> max_value" using Cons.prems(1) by simp_all
  then have in_range: "nat ?cut < length h" using Cons.prems(2) by simp
  have "\<exists>h'. histogram_loop psi diag max_value is ?h = Inr h' \<and> length h' = length ?h \<and>
           (\<forall>b<length ?h. h' ! b = ?h ! b +
              sum_list (map (\<lambda>i. if int_cast (Re (amplitudes diag ! i)) = int b
                                   then std_norm (amplitudes psi ! i) else 0) is))"
    using Cons.prems by (intro Cons.IH) simp_all
  then obtain h' where
    run: "histogram_loop psi diag max_value is ?h = Inr h'"
    and len: "length h' = length h"
    and nth: "\<forall>b<length h. h' ! b = ?h ! b +
              sum_list (map (\<lambda>i. if int_cast (Re (amplitudes diag ! i)) = int b
                                   then std_norm (amplitudes psi ! i) else 0) is)"
    by auto
  have "h' ! b = h ! b +
      sum_list (map (\<lambda>i. if int_cast (Re (amplitudes diag ! i)) = int b
                           then std_norm (amplitudes psi ! i) else 0) (i # is))"
    if "b < length h" for b
  proof (cases "b = nat ?cut")
    case True
    then have "?cut = int b" using cut(1) by simp
    then show ?thesis using nth that True by simp
  next
    case False
    then have "?cut \<noteq> int b" by auto
    then show ?thesis using nth that False by simp
  qed
  moreover have "histogram_loop psi diag max_value (i # is) h = Inr h'"
    using cut run by (simp add: Let_def)
  ultimately show ?case using len by blast
qed

lemma merge_histograms:
  assumes "k \<le> length local_hist" "length private_hist = length local_hist"
  shows "foldl (\<lambda>local_hist n. local_hist[n := local_hist ! n + private_hist ! n]) local_hist [0..<k] =
         map (\<lambda>n. if n < k then local_hist ! n + private_hist ! n else local_hist ! n)
           [0..<length local_hist]"
  using assms(1)
proof (induction k)
  case 0
  then show ?case by (simp add: map_nth)
next
  case (Suc k)
  then show ?case
    by (auto intro!: nth_equalityI simp: nth_list_update less_Suc_eq)
qed

lemma histogram_rank_eq:
  assumes "LocalSize psi = LocalSize diag" "GlobalSize psi = GlobalSize diag" "0 < max_value"
    and "\<forall>i<LocalSize psi. 0 \<le> int_cast (Re (amplitudes diag ! i)) \<and>
             int_cast (Re (amplitudes diag ! i)) \<le> max_value"
    and "max_value < 2147483647"
  shows "GetHistogramFromCostFunction_rank max_value r (psi, diag) =
         Inr (map (\<lambda>b. \<Sum>i<LocalSize psi. if int_cast (Re (amplitudes diag ! i)) = int b
                                             then std_norm (amplitudes psi ! i) else 0)
                [0..<nat (max_value + 1)])"
proof -
  let ?m = "nat (max_value + 1)"
  have "\<forall>i\<in>set [0..<LocalSize psi]. 0 \<le> int_cast (Re (amplitudes diag ! i)) \<and>
             int_cast (Re (amplitudes diag ! i)) \<le> max_value"
    using assms(4) by simp
  from histogram_loop_eq [OF this, of "replicate ?m 0" psi] obtain h' where
    run: "histogram_loop psi diag max_value [0..<LocalSize psi] (replicate ?m 0) = Inr h'"
    and len: "length h' = ?m"
    and nth: "\<forall>b<?m. h' ! b =
              sum_list (map (\<lambda>i. if int_cast (Re (amplitudes diag ! i)) = int b
                                   then std_norm (amplitudes psi ! i) else 0) [0..<LocalSize psi])"
    by auto
  have "foldl (\<lambda>local_hist n. local_hist[n := local_hist ! n + h' ! n]) (replicate ?m 0) [0..<?m] =
        map (\<lambda>b. \<Sum>i<LocalSize psi. if int_cast (Re (amplitudes diag ! i)) = int b
                                      then std_norm (amplitudes psi ! i) else 0) [0..<?m]"
    using merge_histograms [of ?m "replicate ?m 0" h'] len nth
    by (simp add: interv_sum_list_conv_sum_set_nat atLeast0LessThan)
  moreover have size: "int32 (max_value + 1) = max_value + 1"
    using assms(3,5) by (intro int32_eq_self) simp_all
  moreover have "Suc (nat max_value) = ?m"
    using assms(3) by simp
  ultimately show ?thesis
    using assms(1,2,3) run
    by (simp add: GetHistogramFromCostFunction_rank_def Let_def)
qed

lemma int_cast_nonneg: "0 \<le> r \<Longrightarrow> int_cast r = \<lfloor>r\<rfloor>"
  by (simp add: int_cast_def)

lemma int_cast_range:
  assumes "0 \<le> r" "r \<le> of_int m"
  shows "0 \<le> int_cast r \<and> int_cast r \<le> m"
  using assms by (simp add: int_cast_def floor_le_iff)

lemma shard_costs_in_global:
  assumes "(psi, diag) \<in> set pds" "i < LocalSize diag"
  shows "amplitudes diag ! i \<in> set (global_array (map snd pds))"
proof -
  have "amplitudes diag ! i \<in> set (amplitudes diag)"
    using assms(2) by (simp add: LocalSize_def)
  moreover have "diag \<in> snd ` set pds" using assms(1) by force
  ultimately show ?thesis by (auto simp: global_array_def)
qed

lemma histogram_eq:
  assumes "0 < max_value" "max_value < 2147483647"
    and "\<forall>(psi, diag)\<in>set pds. LocalSize psi = LocalSize diag \<and> GlobalSize psi = GlobalSize diag"
    and "\<forall>c\<in>set (global_array (map snd pds)). 0 \<le> Re c \<and> Re c \<le> of_int max_value"
  shows "GetHistogramFromCostFunction pds max_value =
         Inr (map (\<lambda>b. \<Sum>x<length (global_array (map fst pds)).
                      if \<lfloor>Re (global_array (map snd pds) ! x)\<rfloor> = int b
                      then std_norm (global_array (map fst pds) ! x) else 0)
                [0..<nat (max_value + 1)])"
proof -
  let ?m = "nat (max_value + 1)"
  let ?G = "\<lambda>b a c. if \<lfloor>Re c\<rfloor> = int b then std_norm a else 0"
  let ?g = "\<lambda>(psi, diag). map (\<lambda>b. \<Sum>i<LocalSize psi. ?G b (amplitudes psi ! i) (amplitudes diag ! i)) [0..<?m]"
  have sizes: "\<forall>(psi, diag)\<in>set pds. LocalSize psi = LocalSize diag"
    using assms(3) by auto
  have "\<forall>pd\<in>set pds. \<forall>r. GetHistogramFromCostFunction_rank max_value r pd = Inr (?g pd)"
  proof (intro ballI allI)
    fix pd r assume pd: "pd \<in> set pds"
    obtain psi diag where eq: "pd = (psi, diag)" by (cases pd)
    have s: "LocalSize psi = LocalSize diag" "GlobalSize psi = GlobalSize diag"
      using assms(3) pd eq by auto
    have c: "0 \<le> Re (amplitudes diag ! i) \<and> Re (amplitudes diag ! i) \<le> of_int max_value"
      if "i < LocalSize psi" for i
      using shard_costs_in_global [of psi diag pds i] assms(4) pd eq that s(1) by simp
    have "\<forall>i<LocalSize psi. 0 \<le> int_cast (Re (amplitudes diag ! i)) \<and>
             int_cast (Re (amplitudes diag ! i)) \<le> max_value"
      using c int_cast_range by blast
    from histogram_rank_eq [OF s assms(1) this assms(2), of r]
    have "GetHistogramFromCostFunction_rank max_value r (psi, diag) =
         Inr (map (\<lambda>b. \<Sum>i<LocalSize psi. if int_cast (Re (amplitudes diag ! i)) = int b
                                             then std_norm (amplitudes psi ! i) else 0)
                [0..<?m])" .
    moreover have "(\<Sum>i<LocalSize psi. if int_cast (Re (amplitudes diag ! i)) = int b
                                             then std_norm (amplitudes psi ! i) else 0) =
        (\<Sum>i<LocalSize psi. ?G b (amplitudes psi ! i) (amplitudes diag ! i))" for b
      using c by (intro sum.cong refl) (simp add: int_cast_nonneg)
    ultimately show "GetHistogramFromCostFunction_rank max_value r pd = Inr (?g pd)"
      by (simp add: eq)
  qed
  then have run: "run_ranks (GetHistogramFromCostFunction_rank max_value) 0 pds = Inr (map ?g pds)"
    by (rule run_ranks_map)
  have "MPI_Allreduce_SUM_array ?m (map ?g pds) =
        map (\<lambda>b. \<Sum>x<length (global_array (map fst pds)).
               ?G b (global_array (map fst pds) ! x) (global_array (map snd pds) ! x)) [0..<?m]"
    unfolding MPI_Allreduce_SUM_array_def
  proof (rule map_cong [OF refl])
    fix b assume "b \<in> set [0..<?m]"
    then have b: "b < ?m" by simp
    have A: "map (\<lambda>h. h ! b) (map ?g pds) =
          map (\<lambda>(psi, diag). \<Sum>i<LocalSize psi. ?G b (amplitudes psi ! i) (amplitudes diag ! i)) pds"
      using b by (auto simp: case_prod_beta)
    have "MPI_Allreduce_SUM (map (\<lambda>h. h ! b) (map ?g pds)) =
          sum_list (map (\<lambda>(psi, diag). \<Sum>i<LocalSize psi. ?G b (amplitudes psi ! i) (amplitudes diag ! i)) pds)"
      by (simp only: A MPI_Allreduce_SUM_eq)
    also have "\<dots> = (\<Sum>x<length (global_array (map fst pds)).
               ?G b (global_array (map fst pds) ! x) (global_array (map snd pds) ! x))"
      using global_sum [OF sizes, of "?G b"] by blast
    finally show "MPI_Allreduce_SUM (map (\<lambda>h. h ! b) (map ?g pds)) =
        (\<Sum>x<length (global_array (map fst pds)).
               ?G b (global_array (map fst pds) ! x) (global_array (map snd pds) ! x))" .
  qed
  moreover have "int32 (max_value + 1) = max_value + 1"
    using assms(1,2) by (intro int32_eq_self) simp_all
  ultimately show ?thesis
    by (simp add: GetHistogramFromCostFunction_def run)
qed

text \<open>
  Claim C5. The claim states that each \<open>|amplitude[i]|\<^sup>2\<close> is added to the bucket
  \<open>round(cost[i])\<close>, for every \<open>max_value > 0\<close> and every cost in \<open>[0, max_value]\<close>. The
  source converts the cost with \<^verbatim>\<open>(int)\<close>, which discards the fractional part: with one
  amplitude 1, the cost \<open>3/4\<close> and \<open>max_value = 1\<close>, the probability mass goes to the
  bucket 0, and \<open>round(3/4)\<close> is 1. And with \<open>max_value = 2^31 - 1\<close>, the largest \<^verbatim>\<open>int\<close>,
  the number \<^verbatim>\<open>max_value+1\<close> of buckets overflows and no histogram is returned.
\<close>

theorem histogram_bucket_counterexample:
  "GetHistogramFromCostFunction
     [(\<lparr>NumQubits = 0, GlobalSize = 1, amplitudes = [1]\<rparr>,
       \<lparr>NumQubits = 0, GlobalSize = 1, amplitudes = [Complex (3 / 4) 0]\<rparr>)] 1 = Inr [1, 0] \<and>
   round (Re (Complex (3 / 4) 0)) = 1 \<and>
   GetHistogramFromCostFunction
     [(\<lparr>NumQubits = 0, GlobalSize = 1, amplitudes = [1]\<rparr>,
       \<lparr>NumQubits = 0, GlobalSize = 1, amplitudes = [0]\<rparr>)] 2147483647 = Inl OutOfBounds"
proof -
  have "round (3 / 4 :: real) = 1" by (simp add: round_def)
  moreover have "GetHistogramFromCostFunction
     [(\<lparr>NumQubits = 0, GlobalSize = 1, amplitudes = [1]\<rparr>,
       \<lparr>NumQubits = 0, GlobalSize = 1, amplitudes = [Complex (3 / 4) 0]\<rparr>)] 1 = Inr [1, 0]"
    by code_simp
  moreover have "GetHistogramFromCostFunction
     [(\<lparr>NumQubits = 0, GlobalSize = 1, amplitudes = [1]\<rparr>,
       \<lparr>NumQubits = 0, GlobalSize = 1, amplitudes = [0]\<rparr>)] 2147483647 = Inl OutOfBounds"
    by code_simp
  ultimately show ?thesis by simp
qed

text \<open>
  Claim C5, amended. For \<open>0 < max_value < 2^31 - 1\<close>, shards of matching sizes and every
  cost in \<open>[0, max_value]\<close>, the function returns a sequence of length \<open>max_value + 1\<close>
  whose bucket \<open>b\<close> is the sum of \<open>|amplitude[i]|\<^sup>2\<close> over exactly the global indices
  \<open>i\<close> with \<open>\<lfloor>cost[i]\<rfloor> = b\<close>; when the costs are integers, these are the indices whose
  cost is \<open>b\<close>.
\<close>

theorem GetHistogramFromCostFunction_buckets:
  assumes "0 < max_value" "max_value < 2147483647" "equal_sizes pds"
    "costs_in_range max_value pds"
  defines "amplitude_array \<equiv> global_array (map fst pds)"
    and "cost_array \<equiv> global_array (map snd pds)"
  shows "\<exists>h. GetHistogramFromCostFunction pds max_value = Inr h \<and>
           length h = nat (max_value + 1) \<and>
           (\<forall>b<length h. h ! b =
              (\<Sum>x | x < length amplitude_array \<and> \<lfloor>Re (cost_array ! x)\<rfloor> = int b.
                 std_norm (amplitude_array ! x))) \<and>
           ((\<forall>c\<in>set cost_array. Re c \<in> \<int>) \<longrightarrow>
            (\<forall>b<length h. h ! b =
              (\<Sum>x | x < length amplitude_array \<and> Re (cost_array ! x) = of_nat b.
                 std_norm (amplitude_array ! x))))"
proof -
  let ?N = "length amplitude_array"
  let ?h = "map (\<lambda>b. \<Sum>x<?N. if \<lfloor>Re (cost_array ! x)\<rfloor> = int b
                             then std_norm (amplitude_array ! x) else 0)
              [0..<nat (max_value + 1)]"
  have sizes: "\<forall>(psi, diag)\<in>set pds. LocalSize psi = LocalSize diag \<and> GlobalSize psi = GlobalSize diag"
    using assms(3) by (simp add: equal_sizes_def)
  have range: "\<forall>c\<in>set (global_array (map snd pds)). 0 \<le> Re c \<and> Re c \<le> of_int max_value"
    using assms(4) by (fastforce simp: costs_in_range_def global_array_def)
  have run: "GetHistogramFromCostFunction pds max_value = Inr ?h"
    unfolding amplitude_array_def cost_array_def by (rule histogram_eq [OF assms(1,2) sizes range])
  have len: "?N = length cost_array"
    using global_sum [of pds "\<lambda>a c. 0"] sizes
    by (auto simp: amplitude_array_def cost_array_def)
  have filt: "(\<Sum>x<?N. if P x then std_norm (amplitude_array ! x) else 0) =
              (\<Sum>x | x < ?N \<and> P x. std_norm (amplitude_array ! x))" for P
    using sum.inter_filter [of "{..<?N}" "\<lambda>x. std_norm (amplitude_array ! x)" P, symmetric]
    by simp
  have floor_b: "?h ! b = (\<Sum>x | x < ?N \<and> \<lfloor>Re (cost_array ! x)\<rfloor> = int b.
                 std_norm (amplitude_array ! x))" if "b < length ?h" for b
    using that by (simp add: filt)
  have int_b: "?h ! b = (\<Sum>x | x < ?N \<and> Re (cost_array ! x) = of_nat b.
                 std_norm (amplitude_array ! x))"
    if ints: "\<forall>c\<in>set cost_array. Re c \<in> \<int>" and b: "b < length ?h" for b
  proof -
    have "(\<lfloor>Re (cost_array ! x)\<rfloor> = int b) = (Re (cost_array ! x) = of_nat b)" if "x < ?N" for x
    proof -
      have "Re (cost_array ! x) \<in> \<int>" using ints that len by simp
      then obtain k where k: "Re (cost_array ! x) = of_int k" by (auto elim: Ints_cases)
      have "(real_of_int k = real b) = (k = int b)"
        using of_int_eq_iff [of k "int b", where 'a = real] by simp
      then show ?thesis by (simp add: k)
    qed
    then have "{x. x < ?N \<and> \<lfloor>Re (cost_array ! x)\<rfloor> = int b} =
               {x. x < ?N \<and> Re (cost_array ! x) = of_nat b}"
      by blast
    then show ?thesis using floor_b [OF b] by simp
  qed
  show ?thesis
    using run floor_b int_b by (intro exI [of _ ?h]) simp
qed

theorem GetHistogramFromCostFunction_buckets_witness:
  "(0::int) < 2 \<and> (2::int) < 2147483647 \<and>
   equal_sizes
       [(\<lparr>NumQubits = 1, GlobalSize = 2, amplitudes = [Complex (1 / 2) (1 / 2)]\<rparr>,
         \<lparr>NumQubits = 1, GlobalSize = 2, amplitudes = [1]\<rparr>),
        (\<lparr>NumQubits = 1, GlobalSize = 2, amplitudes = [Complex (1 / 2) (- 1 / 2)]\<rparr>,
         \<lparr>NumQubits = 1, GlobalSize = 2, amplitudes = [2]\<rparr>)] \<and>
   costs_in_range 2
       [(\<lparr>NumQubits = 1, GlobalSize = 2, amplitudes = [Complex (1 / 2) (1 / 2)]\<rparr>,
         \<lparr>NumQubits = 1, GlobalSize = 2, amplitudes = [1]\<rparr>),
        (\<lparr>NumQubits = 1, GlobalSize = 2, amplitudes = [Complex (1 / 2) (- 1 / 2)]\<rparr>,
         \<lparr>NumQubits = 1, GlobalSize = 2, amplitudes = [2]\<rparr>)] \<and>
   GetHistogramFromCostFunction
       [(\<lparr>NumQubits = 1, GlobalSize = 2, amplitudes = [Complex (1 / 2) (1 / 2)]\<rparr>,
         \<lparr>NumQubits = 1, GlobalSize = 2, amplitudes = [1]\<rparr>),
        (\<lparr>NumQubits = 1, GlobalSize = 2, amplitudes = [Complex (1 / 2) (- 1 / 2)]\<rparr>,
         \<lparr>NumQubits = 1, GlobalSize = 2, amplitudes = [2]\<rparr>)] 2 = Inr [0, 1 / 2, 1 / 2] \<and>
   length [0, 1 / 2, 1 / 2 :: real] = nat (2 + 1)"
proof -
  let ?pds = "[(\<lparr>NumQubits = 1, GlobalSize = 2, amplitudes = [Complex (1 / 2) (1 / 2)]\<rparr>,
         \<lparr>NumQubits = 1, GlobalSize = 2, amplitudes = [1]\<rparr>),
        (\<lparr>NumQubits = 1, GlobalSize = 2, amplitudes = [Complex (1 / 2) (- 1 / 2)]\<rparr>,
         \<lparr>NumQubits = 1, GlobalSize = 2, amplitudes = [2]\<rparr>)]"
  have h1: "(0::int) < 2" by simp
  have h4: "(2::int) < 2147483647" by simp
  have h2: "equal_sizes ?pds" by (simp add: equal_sizes_def LocalSize_def)
  have h3: "costs_in_range 2 ?pds" by (simp add: costs_in_range_def)
  have run: "GetHistogramFromCostFunction ?pds 2 = Inr [0, 1 / 2, 1 / 2]" by code_simp
  from GetHistogramFromCostFunction_buckets [OF h1 h4 h2 h3] run
  have "length [0, 1 / 2, 1 / 2 :: real] = nat (2 + 1)" by auto
  with h1 h2 h3 h4 run show ?thesis by blast
qed

section \<open>Properties of the phase layer\<close>

lemma phase_loop:
  assumes "m \<le> length a"
  shows "foldl (\<lambda>a i. a[i := a ! i * ph i]) a [0..<m] =
         map (\<lambda>i. if i < m then a ! i * ph i else a ! i) [0..<length a]"
  using assms
proof (induction m)
  case 0
  then show ?case by (simp add: map_nth)
next
  case (Suc m)
  then show ?case
    by (auto intro!: nth_equalityI simp: nth_list_update less_Suc_eq)
qed

lemma std_norm_mult: "std_norm (x * y) = std_norm x * std_norm y"
  by (simp add: std_norm_def algebra_simps)

lemma std_norm_phase: "std_norm (Complex (cos t) (- sin t)) = 1"
proof -
  have "cos t * cos t + sin t * sin t = 1"
    using sin_cos_squared_add2 [of t] by (simp add: power2_eq_square)
  then show ?thesis by (simp add: std_norm_def)
qed

lemma layer_eq:
  assumes "LocalSize psi = LocalSize diag" "GlobalSize psi = GlobalSize diag"
  shows "ImplementQaoaLayerBasedOnCostFunction psi diag gamma =
         Inr (psi\<lparr>amplitudes := map (\<lambda>i. amplitudes psi ! i *
                 Complex (cos (gamma * Re (amplitudes diag ! i)))
                         (- sin (gamma * Re (amplitudes diag ! i)))) [0..<LocalSize psi]\<rparr>)"
  using assms
    phase_loop [of "LocalSize psi" "amplitudes psi"
      "\<lambda>i. Complex (cos (gamma * Re (amplitudes diag ! i))) (- sin (gamma * Re (amplitudes diag ! i)))"]
  by (simp add: ImplementQaoaLayerBasedOnCostFunction_def LocalSize_def)

text \<open>
  Claim C6. When the two registers have the same local and global sizes, the function
  returns the register \<open>psi\<close> with every local amplitude multiplied by
  \<open>complex(cos(gamma * cost[i]), -sin(gamma * cost[i]))\<close> and nothing else changed; every
  \<open>|amplitude[i]|\<^sup>2\<close> is unchanged; and, over all the processes, the expectation value is
  the same before and after the call.
\<close>

theorem ImplementQaoaLayerBasedOnCostFunction_correct:
  assumes "equal_sizes pds"
  shows "\<exists>psis'. run_ranks (\<lambda>r (psi, diag). ImplementQaoaLayerBasedOnCostFunction psi diag gamma) 0 pds =
            Inr psis' \<and>
          length psis' = length pds \<and>
          (\<forall>k<length pds.
             NumQubits (psis' ! k) = NumQubits (fst (pds ! k)) \<and>
             GlobalSize (psis' ! k) = GlobalSize (fst (pds ! k)) \<and>
             LocalSize (psis' ! k) = LocalSize (fst (pds ! k)) \<and>
             (\<forall>i<LocalSize (fst (pds ! k)).
                amplitudes (psis' ! k) ! i =
                  amplitudes (fst (pds ! k)) ! i *
                  Complex (cos (gamma * Re (amplitudes (snd (pds ! k)) ! i)))
                          (- sin (gamma * Re (amplitudes (snd (pds ! k)) ! i))) \<and>
                std_norm (amplitudes (psis' ! k) ! i) = std_norm (amplitudes (fst (pds ! k)) ! i))) \<and>
          GetExpectationValueFromCostFunction (zip psis' (map snd pds)) =
            GetExpectationValueFromCostFunction pds"
proof -
  define layer where "layer = (\<lambda>(psi :: qreg, diag :: qreg).
     psi\<lparr>amplitudes := map (\<lambda>i. amplitudes psi ! i *
                 Complex (cos (gamma * Re (amplitudes diag ! i)))
                         (- sin (gamma * Re (amplitudes diag ! i)))) [0..<LocalSize psi]\<rparr>)"
  have both: "\<forall>(psi, diag)\<in>set pds. LocalSize psi = LocalSize diag \<and> GlobalSize psi = GlobalSize diag"
    using assms by (simp add: equal_sizes_def)
  have "\<forall>pd\<in>set pds. \<forall>r. (case pd of (psi, diag) \<Rightarrow>
      ImplementQaoaLayerBasedOnCostFunction psi diag gamma) = Inr (layer pd)"
    using both layer_eq by (auto simp: layer_def)
  then have run: "run_ranks (\<lambda>r (psi, diag). ImplementQaoaLayerBasedOnCostFunction psi diag gamma) 0 pds =
      Inr (map layer pds)"
    by (rule run_ranks_map)
  have fields: "NumQubits (layer pd) = NumQubits (fst pd)" "GlobalSize (layer pd) = GlobalSize (fst pd)"
    "LocalSize (layer pd) = LocalSize (fst pd)" for pd
    by (cases pd; simp add: layer_def LocalSize_def)+
  have amp: "amplitudes (layer pd) ! i =
      amplitudes (fst pd) ! i * Complex (cos (gamma * Re (amplitudes (snd pd) ! i)))
                                        (- sin (gamma * Re (amplitudes (snd pd) ! i)))"
    if "i < LocalSize (fst pd)" for pd i
    using that by (cases pd) (simp add: layer_def)
  have nrm: "std_norm (amplitudes (layer pd) ! i) = std_norm (amplitudes (fst pd) ! i)"
    if "i < LocalSize (fst pd)" for pd i
    by (simp add: amp [OF that] std_norm_mult std_norm_phase)
  have sizes: "\<forall>(psi, diag)\<in>set pds. LocalSize psi = LocalSize diag"
    using both by auto
  have zip_eq: "zip (map layer pds) (map snd pds) = map (\<lambda>pd. (layer pd, snd pd)) pds"
    by (induction pds) simp_all
  have sizes': "\<forall>(psi, diag)\<in>set (map (\<lambda>pd. (layer pd, snd pd)) pds). LocalSize psi = LocalSize diag"
    using sizes by (auto simp: fields)
  have "(\<Sum>i<LocalSize (layer pd). std_norm (amplitudes (layer pd) ! i) * Re (amplitudes (snd pd) ! i)) =
        (\<Sum>i<LocalSize (fst pd). std_norm (amplitudes (fst pd) ! i) * Re (amplitudes (snd pd) ! i))" for pd
    unfolding fields by (intro sum.cong refl) (simp add: nrm)
  then have locals: "map (\<lambda>(psi, diag). \<Sum>i<LocalSize psi. std_norm (amplitudes psi ! i) * Re (amplitudes diag ! i))
          (map (\<lambda>pd. (layer pd, snd pd)) pds) =
        map (\<lambda>(psi, diag). \<Sum>i<LocalSize psi. std_norm (amplitudes psi ! i) * Re (amplitudes diag ! i)) pds"
    by (simp add: case_prod_beta)
  have "GetExpectationValueFromCostFunction (map (\<lambda>pd. (layer pd, snd pd)) pds) =
        GetExpectationValueFromCostFunction pds"
    unfolding GetExpectationValueFromCostFunction_def
    by (simp only: expectation_run [OF sizes] expectation_run [OF sizes'] locals)
  then show ?thesis
    using run fields amp nrm by (intro exI [of _ "map layer pds"]) (simp add: zip_eq)
qed

theorem ImplementQaoaLayerBasedOnCostFunction_correct_witness:
  "equal_sizes
      [(\<lparr>NumQubits = 0, GlobalSize = 1, amplitudes = [Complex 1 0]\<rparr>,
        \<lparr>NumQubits = 0, GlobalSize = 1, amplitudes = [Complex 1 0]\<rparr>)] \<and>
   run_ranks (\<lambda>r (psi, diag). ImplementQaoaLayerBasedOnCostFunction psi diag (pi / 2)) 0
      [(\<lparr>NumQubits = 0, GlobalSize = 1, amplitudes = [Complex 1 0]\<rparr>,
        \<lparr>NumQubits = 0, GlobalSize = 1, amplitudes = [Complex 1 0]\<rparr>)] =
     Inr [\<lparr>NumQubits = 0, GlobalSize = 1, amplitudes = [Complex 0 (- 1)]\<rparr>] \<and>
   GetExpectationValueFromCostFunction
      (zip [\<lparr>NumQubits = 0, GlobalSize = 1, amplitudes = [Complex 0 (- 1)]\<rparr>]
           (map snd [(\<lparr>NumQubits = 0, GlobalSize = 1, amplitudes = [Complex 1 0]\<rparr>,
                      \<lparr>NumQubits = 0, GlobalSize = 1, amplitudes = [Complex 1 0]\<rparr>)])) =
   GetExpectationValueFromCostFunction
      [(\<lparr>NumQubits = 0, GlobalSize = 1, amplitudes = [Complex 1 0]\<rparr>,
        \<lparr>NumQubits = 0, GlobalSize = 1, amplitudes = [Complex 1 0]\<rparr>)]"
proof -
  let ?pds = "[(\<lparr>NumQubits = 0, GlobalSize = 1, amplitudes = [Complex 1 0]\<rparr>,
        \<lparr>NumQubits = 0, GlobalSize = 1, amplitudes = [Complex 1 0]\<rparr>)]"
  have h: "equal_sizes ?pds"
    by (simp add: equal_sizes_def LocalSize_def)
  have run: "run_ranks (\<lambda>r (psi, diag). ImplementQaoaLayerBasedOnCostFunction psi diag (pi / 2)) 0 ?pds =
     Inr [\<lparr>NumQubits = 0, GlobalSize = 1, amplitudes = [Complex 0 (- 1)]\<rparr>]"
    by (simp add: ImplementQaoaLayerBasedOnCostFunction_def LocalSize_def complex_eq_iff)
  from ImplementQaoaLayerBasedOnCostFunction_correct [OF h, of "pi / 2"] run h
  show ?thesis by auto
qed

end
